theory Spec2Isabelle
  imports Main "HOL-Library.Sublist" "HOL-Library.Char_ord"
begin

section \<open>Go runtime: panics, indexing, slicing\<close>

text \<open>
  A Go panic is a value of \<open>error\<close>; a function that can panic returns \<open>error + 'a\<close>
  with \<open>Inl\<close> for the panic. Strings are byte sequences (\<open>char list\<close>), as Go's
  \<open>len\<close>, indexing and slicing see them.
\<close>

datatype error = IndexOutOfRange | SliceBounds | NeverReturns

definition bindE :: "error + 'a \<Rightarrow> ('a \<Rightarrow> error + 'b) \<Rightarrow> error + 'b" where
  "bindE r f = (case r of Inl e \<Rightarrow> Inl e | Inr x \<Rightarrow> f x)"

text \<open>\<open>s[i]\<close> on a string, with a non-negative index.\<close>

definition byteAt :: "string \<Rightarrow> nat \<Rightarrow> error + char" where
  "byteAt s i = (if i < length s then Inr (s ! i) else Inl IndexOutOfRange)"

text \<open>\<open>xs[i]\<close> on a slice, with a Go \<open>int\<close> index.\<close>

definition nthE :: "'a list \<Rightarrow> int \<Rightarrow> error + 'a" where
  "nthE xs i = (if 0 \<le> i \<and> i < int (length xs) then Inr (xs ! nat i) else Inl IndexOutOfRange)"

text \<open>\<open>s[lo:hi]\<close>: panics unless \<open>lo \<le> hi \<le> len(s)\<close>.\<close>

definition slice :: "'a list \<Rightarrow> nat \<Rightarrow> nat \<Rightarrow> error + 'a list" where
  "slice s lo hi =
     (if lo \<le> hi \<and> hi \<le> length s then Inr (take (hi - lo) (drop lo s)) else Inl SliceBounds)"

section \<open>ANSI offset mapper (\<open>buildCharMap\<close>)\<close>

abbreviation ESC :: char where "ESC \<equiv> CHR 0x1B"

text \<open>The parameter bytes of a CSI sequence: \<open>';'\<close> or \<open>'0'..'9'\<close>.\<close>

definition isParam :: "char \<Rightarrow> bool" where
  "isParam c = (c = CHR '';'' \<or> (CHR ''0'' \<le> c \<and> c \<le> CHR ''9''))"

text \<open>
  The inner loop of \<open>buildCharMap\<close>:
  \<^verbatim>\<open>for j < len(ansiStr) && (ansiStr[j] == ';' || (ansiStr[j] >= '0' && ansiStr[j] <= '9')) { j++ }\<close>
\<close>

function skipParams :: "string \<Rightarrow> nat \<Rightarrow> error + nat" where
  "skipParams s j =
     (if j < length s
      then (case byteAt s j of
              Inl e \<Rightarrow> Inl e
            | Inr c \<Rightarrow> if isParam c then skipParams s (j + 1) else Inr j)
      else Inr j)"
  by pat_completeness auto
termination
  by (relation "measure (\<lambda>(s, j). length s - j)") auto

declare skipParams.simps [simp del]

text \<open>
  The test \<^verbatim>\<open>ansiStr[i] == '\x1b' && i+1 < len(ansiStr) && ansiStr[i+1] == '['\<close>,
  evaluated left to right with short-circuit.
\<close>

definition csiStartAt :: "string \<Rightarrow> nat \<Rightarrow> error + bool" where
  "csiStartAt s i =
     (case byteAt s i of
        Inl e \<Rightarrow> Inl e
      | Inr c \<Rightarrow>
          if c \<noteq> ESC then Inr False
          else if \<not> (i + 1 < length s) then Inr False
          else (case byteAt s (i + 1) of
                  Inl e \<Rightarrow> Inl e
                | Inr c1 \<Rightarrow> Inr (c1 = CHR ''['')))"

lemma skipParams_ge: "skipParams s j = Inr k \<Longrightarrow> j \<le> k"
proof (induction s j rule: skipParams.induct)
  case (1 s j)
  show ?case
  proof (cases "j < length s \<and> isParam (s ! j)")
    case True
    with "1.prems" have "skipParams s (j + 1) = Inr k"
      by (subst (asm) skipParams.simps) (simp add: byteAt_def)
    with True "1.IH"[of "s ! j"] have "j + 1 \<le> k"
      by (simp add: byteAt_def)
    then show ?thesis by simp
  next
    case False
    with "1.prems" have "k = j"
      by (subst (asm) skipParams.simps) (auto simp: byteAt_def split: if_splits)
    then show ?thesis by simp
  qed
qed

text \<open>
  The outer loop of \<open>buildCharMap\<close>, with the loop variable \<open>i\<close> and the slice
  \<open>charMap\<close> as arguments; when the loop ends the sentinel is appended.
\<close>

function buildCharMapLoop :: "string \<Rightarrow> nat \<Rightarrow> nat list \<Rightarrow> error + nat list" where
  "buildCharMapLoop s i charMap =
     (if i < length s
      then (case csiStartAt s i of
              Inl e \<Rightarrow> Inl e
            | Inr True \<Rightarrow>
                (case skipParams s (i + 2) of
                   Inl e \<Rightarrow> Inl e
                 | Inr j \<Rightarrow> buildCharMapLoop s (if j < length s then j + 1 else j) charMap)
            | Inr False \<Rightarrow> buildCharMapLoop s (i + 1) (charMap @ [i]))
      else Inr (charMap @ [i]))"
  by pat_completeness auto
termination
proof (relation "measure (\<lambda>(s, i, charMap). length s - i)")
  show "wf (measure (\<lambda>(s, i, charMap). length s - i))" by simp
next
  fix s :: string and i :: nat and charMap :: "nat list" and x2 :: bool and x2a :: nat
  assume "i < length s" and "skipParams s (i + 2) = Inr x2a"
  then have "i + 2 \<le> x2a" using skipParams_ge by blast
  with \<open>i < length s\<close>
  show "((s, if x2a < length s then x2a + 1 else x2a, charMap), (s, i, charMap))
          \<in> measure (\<lambda>(s, i, charMap). length s - i)"
    by auto
next
  fix s :: string and i :: nat and charMap :: "nat list" and x2 :: bool
  assume "i < length s"
  then show "((s, i + 1, charMap @ [i]), (s, i, charMap)) \<in> measure (\<lambda>(s, i, charMap). length s - i)"
    by auto
qed

declare buildCharMapLoop.simps [simp del]

definition buildCharMap :: "string \<Rightarrow> error + nat list" where
  "buildCharMap ansiStr = buildCharMapLoop ansiStr 0 []"

section \<open>Escape stripping (\<open>stripANSI\<close>)\<close>

text \<open>The final byte of the pattern \<^verbatim>\<open>\x1b\[[0-9;]*[a-zA-Z]\<close>.\<close>

definition isLetter :: "char \<Rightarrow> bool" where
  "isLetter c = ((CHR ''a'' \<le> c \<and> c \<le> CHR ''z'') \<or> (CHR ''A'' \<le> c \<and> c \<le> CHR ''Z''))"

text \<open>
  A match of \<^verbatim>\<open>\x1b\[[0-9;]*[a-zA-Z]\<close> anchored at the start of \<open>s\<close>, returning what
  follows it. Parameter bytes and letters are disjoint, so the greedy star has one way to
  match: all parameter bytes, then one letter.
\<close>

definition csiMatch :: "string \<Rightarrow> string option" where
  "csiMatch s =
     (case s of
        c1 # c2 # rest \<Rightarrow>
          if c1 = ESC \<and> c2 = CHR ''[''
          then (case dropWhile isParam rest of
                  l # r \<Rightarrow> if isLetter l then Some r else None
                | [] \<Rightarrow> None)
          else None
      | _ \<Rightarrow> None)"

lemma csiMatch_shorter: "csiMatch s = Some r \<Longrightarrow> length r < length s"
proof -
  assume a: "csiMatch s = Some r"
  then obtain c1 c2 rest where s: "s = c1 # c2 # rest"
    by (cases s; cases "tl s") (auto simp: csiMatch_def)
  from a s obtain l where "dropWhile isParam rest = l # r"
    by (auto simp: csiMatch_def split: if_splits list.splits)
  then have "length r < length rest"
    using length_dropWhile_le[of isParam rest] by simp
  with s show ?thesis by simp
qed

text \<open>
  \<open>ansiEscRe.ReplaceAllString(s, "")\<close>: scanning from the left, every leftmost match is
  dropped and the scan resumes after it; a byte where no match starts is copied.
\<close>

function stripANSI :: "string \<Rightarrow> string" where
  "stripANSI [] = []"
| "stripANSI (c # cs) =
     (case csiMatch (c # cs) of
        Some r \<Rightarrow> stripANSI r
      | None \<Rightarrow> c # stripANSI cs)"
  by pat_completeness auto
termination
  by (relation "measure length") (auto dest: csiMatch_shorter)

declare stripANSI.simps(2) [simp del]

section \<open>Decorated strings\<close>

text \<open>
  A decorated string is made of plain characters interleaved with complete CSI
  sequences \<open>ESC '[' params letter\<close>. A plain character is any byte but ESC.
\<close>

datatype segment = Plain char | Csi string char

fun validSeg :: "segment \<Rightarrow> bool" where
  "validSeg (Plain c) = (c \<noteq> ESC)"
| "validSeg (Csi ps l) = (list_all isParam ps \<and> isLetter l)"

fun renderSeg :: "segment \<Rightarrow> string" where
  "renderSeg (Plain c) = [c]"
| "renderSeg (Csi ps l) = ESC # CHR ''['' # ps @ [l]"

definition decorated :: "segment list \<Rightarrow> string" where
  "decorated segs = concat (map renderSeg segs)"

fun plainText :: "segment list \<Rightarrow> string" where
  "plainText [] = []"
| "plainText (Plain c # segs) = c # plainText segs"
| "plainText (Csi ps l # segs) = plainText segs"

text \<open>The byte offset of every plain character of a decorated string, then its length.\<close>

fun plainOffsets :: "nat \<Rightarrow> segment list \<Rightarrow> nat list" where
  "plainOffsets off [] = [off]"
| "plainOffsets off (Plain c # segs) = off # plainOffsets (off + 1) segs"
| "plainOffsets off (Csi ps l # segs) = plainOffsets (off + length ps + 3) segs"

text \<open>A decorated line used in the examples: \<^verbatim>\<open>ESC[31mJoESC[0mb\<close>.\<close>

definition jobSegs :: "segment list" where
  "jobSegs = [Csi ''31'' (CHR ''m''), Plain (CHR ''J''), Plain (CHR ''o''),
              Csi ''0'' (CHR ''m''), Plain (CHR ''b'')]"

section \<open>Highlight injection (\<open>injectBgHighlights\<close>)\<close>

lemma bindE_Inr [simp]: "bindE (Inr x) f = f x"
  by (simp add: bindE_def)

lemma bindE_Inl [simp]: "bindE (Inl e) f = Inl e"
  by (simp add: bindE_def)

lemma bindE_cong [fundef_cong]:
  "r = r' \<Longrightarrow> (\<And>x. r' = Inr x \<Longrightarrow> f x = f' x) \<Longrightarrow> bindE r f = bindE r' f'"
  by (cases r') (simp_all add: bindE_def)

definition bgCurrent :: string where "bgCurrent = ESC # ''[42m''"
definition bgOther :: string where "bgOther = ESC # ''[43m''"
definition bgReset :: string where "bgReset = ESC # ''[49m''"

text \<open>
  The body of the loop \<^verbatim>\<open>for k, r := range ranges\<close> on the state \<open>(sb, prev)\<close>: the
  string builder and the last written byte position. A \<^verbatim>\<open>continue\<close> returns the state
  as it is.
\<close>

definition injectStep ::
  "string \<Rightarrow> nat list \<Rightarrow> int list \<Rightarrow> int \<Rightarrow> nat \<Rightarrow> int \<times> int \<Rightarrow> string \<times> nat
     \<Rightarrow> error + (string \<times> nat)" where
  "injectStep coloredLine charMap absIdxs currentIdx k r st =
     (case (r, st) of ((start, end0), (sb, prev)) \<Rightarrow>
        if start \<ge> int (length charMap) - 1 then Inr (sb, prev)
        else
          bindE (nthE charMap start) (\<lambda>byteStart.
          bindE (nthE charMap (if end0 \<ge> int (length charMap) then int (length charMap) - 1 else end0))
            (\<lambda>byteEnd.
          if byteStart < prev then Inr (sb, prev)
          else
            bindE (slice coloredLine prev byteStart) (\<lambda>before.
            bindE (nthE absIdxs (int k)) (\<lambda>a.
            bindE (slice coloredLine byteStart byteEnd) (\<lambda>matched.
            Inr (sb @ before @ (if a = currentIdx then bgCurrent else bgOther) @ matched @ bgReset,
                 byteEnd)))))))"

fun injectLoop ::
  "string \<Rightarrow> nat list \<Rightarrow> int list \<Rightarrow> int \<Rightarrow> (int \<times> int) list \<Rightarrow> nat \<Rightarrow> string \<times> nat
     \<Rightarrow> error + (string \<times> nat)" where
  "injectLoop coloredLine charMap absIdxs currentIdx [] k st = Inr st"
| "injectLoop coloredLine charMap absIdxs currentIdx (r # ranges) k st =
     bindE (injectStep coloredLine charMap absIdxs currentIdx k r st)
       (\<lambda>st'. injectLoop coloredLine charMap absIdxs currentIdx ranges (k + 1) st')"

definition injectBgHighlights :: "string \<Rightarrow> (int \<times> int) list \<Rightarrow> int list \<Rightarrow> int \<Rightarrow> error + string" where
  "injectBgHighlights coloredLine ranges absIdxs currentIdx =
     (if length ranges = 0 then Inr coloredLine
      else
        bindE (buildCharMap coloredLine) (\<lambda>charMap.
        bindE (injectLoop coloredLine charMap absIdxs currentIdx ranges 0 ([], 0)) (\<lambda>(sb, prev).
        bindE (slice coloredLine prev (length coloredLine)) (\<lambda>rest.
        Inr (sb @ rest)))))"

text \<open>
  A position where the line can be cut: what precedes it strips on its own, whatever
  follows.
\<close>

definition boundary :: "string \<Rightarrow> nat \<Rightarrow> bool" where
  "boundary line p \<longleftrightarrow>
     p \<le> length line \<and>
     (\<forall>z. stripANSI (take p line @ z) = stripANSI (take p line) @ stripANSI z)"

text \<open>
  The loop invariant: the builder holds, up to escape sequences, the text of the line
  before \<open>prev\<close>, and \<open>prev\<close> is a boundary.
\<close>

definition injInv :: "string \<Rightarrow> string \<times> nat \<Rightarrow> bool" where
  "injInv line st \<longleftrightarrow>
     boundary line (snd st) \<and>
     (\<forall>z. stripANSI (fst st @ z) = stripANSI (take (snd st) line) @ stripANSI z)"

text \<open>
  The output as the specification describes it, on a line whose plain characters sit at
  the byte offsets \<open>offs\<close> (one more entry for the end of the line). \<open>keptSpans\<close> walks
  the ranges left to right and keeps the byte span and the absolute index of every range
  that starts inside the text and whose mapped start does not lie before the end of the
  span kept last; the other ranges are skipped. \<open>wrapSpans\<close> writes the line from
  \<open>prev\<close> on: the bytes up to each kept span as they are, the background start code
  (one code for the current match, another for the rest), the bytes of the span as they
  are, the background reset code, and after the last span the rest of the line.
\<close>

fun keptSpans :: "nat list \<Rightarrow> int list \<Rightarrow> nat \<Rightarrow> nat \<Rightarrow> (int \<times> int) list \<Rightarrow> (nat \<times> nat \<times> int) list" where
  "keptSpans offs absIdxs k prev [] = []"
| "keptSpans offs absIdxs k prev ((start, end0) # ranges) =
     (if length offs - 1 \<le> nat start then keptSpans offs absIdxs (k + 1) prev ranges
      else if offs ! nat start < prev then keptSpans offs absIdxs (k + 1) prev ranges
      else (offs ! nat start, offs ! min (nat end0) (length offs - 1), absIdxs ! k) #
           keptSpans offs absIdxs (k + 1) (offs ! min (nat end0) (length offs - 1)) ranges)"

fun wrapSpans :: "string \<Rightarrow> int \<Rightarrow> nat \<Rightarrow> (nat \<times> nat \<times> int) list \<Rightarrow> string" where
  "wrapSpans line currentIdx prev [] = drop prev line"
| "wrapSpans line currentIdx prev ((byteStart, byteEnd, a) # spans) =
     take (byteStart - prev) (drop prev line) @
     (if a = currentIdx then bgCurrent else bgOther) @
     take (byteEnd - byteStart) (drop byteStart line) @ bgReset @
     wrapSpans line currentIdx byteEnd spans"
section \<open>Go strings library\<close>

text \<open>\<open>strings.Split(s, sep)\<close> for a one-byte separator: one piece more than separators.\<close>

fun splitOn :: "char \<Rightarrow> string \<Rightarrow> string list" where
  "splitOn sep [] = [[]]"
| "splitOn sep (c # cs) =
     (if c = sep then [] # splitOn sep cs
      else (case splitOn sep cs of l # ls \<Rightarrow> (c # l) # ls | [] \<Rightarrow> [[c]]))"

text \<open>\<open>strings.Join(xs, sep)\<close>.\<close>

fun joinWith :: "string \<Rightarrow> string list \<Rightarrow> string" where
  "joinWith sep [] = []"
| "joinWith sep [x] = x"
| "joinWith sep (x # y # ys) = x @ sep @ joinWith sep (y # ys)"

text \<open>
  \<open>strings.Index(s, sub)\<close>: the least \<open>i\<close> such that \<open>sub\<close> is a prefix of \<open>s[i:]\<close>;
  \<open>None\<close> stands for \<open>-1\<close>.
\<close>

fun strIndex :: "string \<Rightarrow> string \<Rightarrow> nat option" where
  "strIndex [] sub = (if sub = [] then Some 0 else None)"
| "strIndex (c # cs) sub =
     (if prefix sub (c # cs) then Some 0 else map_option Suc (strIndex cs sub))"

text \<open>\<open>strings.Contains(s, sub)\<close>.\<close>

definition strContains :: "string \<Rightarrow> string \<Rightarrow> bool" where
  "strContains s sub = (strIndex s sub \<noteq> None)"

text \<open>
  \<open>strings.ToLower\<close> is a parameter of the model (the field \<open>toLower\<close> of \<open>lib\<close> below):
  it maps Unicode letters and can change the byte length of a string. On a string of
  ASCII bytes it is \<open>toLowerASCII\<close>, which the examples use.
\<close>

definition toLowerASCII :: "string \<Rightarrow> string" where
  "toLowerASCII s =
     map (\<lambda>c. if CHR ''A'' \<le> c \<and> c \<le> CHR ''Z'' then char_of (of_char c + (32::nat)) else c) s"

text \<open>Go's integer division and remainder truncate toward zero.\<close>

definition goQuot :: "int \<Rightarrow> int \<Rightarrow> int" where
  "goQuot a b = sgn a * sgn b * (\<bar>a\<bar> div \<bar>b\<bar>)"

definition goRem :: "int \<Rightarrow> int \<Rightarrow> int" where
  "goRem a b = a - b * goQuot a b"

text \<open>\<open>fmt.Sprintf("%d", n)\<close> for a length.\<close>

fun itoa :: "nat \<Rightarrow> string" where
  "itoa n = (if n < 10 then [char_of (48 + n)] else itoa (n div 10) @ [char_of (48 + n mod 10)])"

declare itoa.simps [simp del]

section \<open>Search matches\<close>

text \<open>\<open>searchMatch\<close>: line number, start offset and exclusive end in the plain text of the line.\<close>

record searchMatch =
  smLine :: int
  smStart :: int
  smEnd :: int

text \<open>
  The inner loop of \<open>rebuildSearch\<close> on one line:
  \<^verbatim>\<open>for { idx := strings.Index(lplain[pos:], lower); if idx < 0 { break }; abs := pos + idx;
  append {lineIdx, abs, abs+len(m.searchText)}; pos = abs + len(m.searchText) }\<close>.
  \<open>qlen\<close> is \<open>len(m.searchText)\<close>. With \<open>qlen = 0\<close> a match would leave \<open>pos\<close> where it
  is and the loop would never end; \<open>rebuildSearch\<close> returns before the loop when the
  query is empty.
\<close>

function scanLine ::
  "string \<Rightarrow> string \<Rightarrow> nat \<Rightarrow> nat \<Rightarrow> nat \<Rightarrow> searchMatch list \<Rightarrow> error + searchMatch list" where
  "scanLine lplain lower qlen lineIdx pos acc =
     bindE (slice lplain pos (length lplain)) (\<lambda>rest.
       case strIndex rest lower of
         None \<Rightarrow> Inr acc
       | Some idx \<Rightarrow>
           if qlen = 0 then Inl NeverReturns
           else scanLine lplain lower qlen lineIdx (pos + idx + qlen)
                  (acc @ [\<lparr>smLine = int lineIdx, smStart = int (pos + idx),
                            smEnd = int (pos + idx + qlen)\<rparr>]))"
  by pat_completeness auto
termination
  by (relation "measure (\<lambda>(lplain, lower, qlen, lineIdx, pos, acc). length lplain + 1 - pos)")
     (auto simp: slice_def split: if_splits)

declare scanLine.simps [simp del]

text \<open>
  The outer loop \<^verbatim>\<open>for lineIdx, line := range lines\<close>; \<open>low\<close> is \<open>strings.ToLower\<close>.
\<close>

fun scanLines ::
  "(string \<Rightarrow> string) \<Rightarrow> string \<Rightarrow> nat \<Rightarrow> string list \<Rightarrow> nat \<Rightarrow> searchMatch list
     \<Rightarrow> error + searchMatch list" where
  "scanLines low lower qlen [] lineIdx acc = Inr acc"
| "scanLines low lower qlen (l # lines) lineIdx acc =
     bindE (scanLine (low (stripANSI l)) lower qlen lineIdx 0 acc)
       (\<lambda>acc'. scanLines low lower qlen lines (lineIdx + 1) acc')"

section \<open>Data model of the dashboard\<close>

datatype screenState = screenConnect | screenMain

datatype focusedPanel = panelConsumers | panelManifests | panelDetail

datatype detailViewMode = viewModeFormatted | viewModeJSON | viewModeYAML

text \<open>The \<open>iota\<close> values of the view modes, and \<open>next\<close>: \<^verbatim>\<open>(m + 1) % 3\<close>.\<close>

fun modeIndex :: "detailViewMode \<Rightarrow> nat" where
  "modeIndex viewModeFormatted = 0"
| "modeIndex viewModeJSON = 1"
| "modeIndex viewModeYAML = 2"

fun modeOfIndex :: "nat \<Rightarrow> detailViewMode" where
  "modeOfIndex 0 = viewModeFormatted"
| "modeOfIndex (Suc 0) = viewModeJSON"
| "modeOfIndex (Suc (Suc n)) = viewModeYAML"

definition nextMode :: "detailViewMode \<Rightarrow> detailViewMode" where
  "nextMode m = modeOfIndex ((modeIndex m + 1) mod 3)"

text \<open>
  The types of the backend client package are declared outside the sources at hand.
  Modelled from the spec: \<open>ConsumerInfo\<close> is the spec's ConsumerRef \<open>{id, name}\<close>,
  \<open>ResourceBundleSummary\<close> its WorkSummary \<open>{id, name, consumerName}\<close> (the condition
  list is read by the view only). A client handle and a fetched detail record are opaque:
  the dashboard stores the first and passes the second to \<open>renderDetail\<close>.
\<close>

record ConsumerInfo =
  ciID :: string
  ciName :: string

record ResourceBundleSummary =
  rbID :: string
  rbName :: string
  rbConsumerName :: string

datatype Client = Client nat

datatype ManifestWorkDetails = ManifestWorkDetails nat

record ClientConfig =
  HTTPEndpoint :: string
  GRPCClientToken :: string
  GRPCInsecure :: bool

text \<open>
  The two components of the bubbles library, as far as the dashboard reads and writes
  them: a text input has a value and a focus flag; a viewport has the public fields
  \<open>Width\<close> and \<open>Height\<close>, a content and a vertical offset.
\<close>

record textinput =
  tiValue :: string
  tiFocus :: bool

record viewport =
  vpWidth :: int
  vpHeight :: int
  vpContent :: string
  vpYOffset :: int

subsection \<open>Messages and commands\<close>

datatype keyType =
  KeyCtrlC | KeyTab | KeyShiftTab | KeySpace | KeyEnter | KeyEscape | KeyRunes | KeyOther

datatype mouseButton = MouseButtonLeft | MouseButtonWheelUp | MouseButtonWheelDown | MouseButtonOther

datatype mouseAction = MouseActionPress | MouseActionRelease | MouseActionMotion

text \<open>
  \<open>KeyMsg t s\<close>: a key of type \<open>t\<close> whose \<open>String()\<close> is \<open>s\<close>. \<open>MouseMsg x y button action\<close>.
  \<open>ErrMsg e\<close> carries \<open>err.Error()\<close>; \<open>ClipboardMsg\<close> the error text, if any.
  \<open>OtherMsg\<close> is any message the dashboard has no case for (cursor blink, paste).
\<close>

datatype msg =
    WindowSizeMsg int int
  | SpinnerTickMsg
  | ErrMsg string
  | ConnectedMsg "Client option" "ConsumerInfo list"
  | ConsumersLoadedMsg "ConsumerInfo list"
  | ManifestsLoadedMsg "ResourceBundleSummary list"
  | DetailLoadedMsg ManifestWorkDetails string string string string
  | ConsumerCreatedMsg ConsumerInfo
  | ConsumerDeletedMsg
  | ManifestDeletedMsg
  | WatchTickMsg
  | ClipboardMsg "string option"
  | MouseMsg int int mouseButton mouseAction
  | KeyMsg keyType string
  | OtherMsg nat

text \<open>
  A command is a descriptor of the closure the Go code returns, with what the closure
  captures (the client, a name or an id, the clipboard text). \<open>tea.Batch\<close> is a list;
  \<open>nil\<close> is the empty list.
\<close>

datatype cmd =
    SpinnerTick
  | WatchTick
  | ConnectCmd ClientConfig
  | ReloadConsumers "Client option"
  | LoadManifests "Client option" string
  | LoadDetail "Client option" ResourceBundleSummary
  | CreateConsumerCmd "Client option" string
  | DeleteConsumerCmd "Client option" string
  | DeleteManifestCmd "Client option" string
  | CopyToClipboardCmd string
  | Quit
  | LibCmd nat

text \<open>
  What the dashboard calls in the Go standard library, lipgloss and bubbles without their
  code being in the repository: parameters of the model. The \<open>Update\<close> of a component
  returns the component and the commands it issues, which the dashboard batches as
  \<open>LibCmd\<close> without looking at them.
\<close>

record lib =
  toLower :: "string \<Rightarrow> string"
  trimSpace :: "string \<Rightarrow> string"
  quote :: "string \<Rightarrow> string"
  renderDetail :: "ManifestWorkDetails \<Rightarrow> string"
  tiUpdate :: "msg \<Rightarrow> textinput \<Rightarrow> textinput \<times> nat list"
  vpUpdate :: "msg \<Rightarrow> viewport \<Rightarrow> viewport \<times> nat list"
  vpSetContent :: "string \<Rightarrow> viewport \<Rightarrow> viewport"
  vpGotoTop :: "viewport \<Rightarrow> viewport"
  vpSetYOffset :: "int \<Rightarrow> viewport \<Rightarrow> viewport"
  vpScrollUp :: "int \<Rightarrow> viewport \<Rightarrow> viewport"
  vpScrollDown :: "int \<Rightarrow> viewport \<Rightarrow> viewport"

subsection \<open>The model\<close>

record Model =
  width :: int
  height :: int
  screen :: screenState
  connectInputs :: "textinput list"
  connectInsecure :: bool
  connectFocusIdx :: int
  connectLoading :: bool
  client :: "Client option"
  clientConfig :: ClientConfig
  focused :: focusedPanel
  consumers :: "ConsumerInfo list"
  consumerCursor :: int
  consumerOffset :: int
  manifests :: "ResourceBundleSummary list"
  manifestCursor :: int
  manifestOffset :: int
  filterInput :: textinput
  filtering :: bool
  filterText :: string
  viewport :: viewport
  detailContent :: string
  detailFormatted :: string
  detailJSON :: string
  detailYAML :: string
  detailRawJSON :: string
  detailRawYAML :: string
  detailViewMode :: detailViewMode
  searchInput :: textinput
  searching :: bool
  searchText :: string
  searchMatches :: "searchMatch list"
  searchCurrent :: int
  watching :: bool
  showCreateConsumer :: bool
  createInput :: textinput
  showConfirm :: bool
  confirmKind :: string
  confirmID :: string
  confirmName :: string
  confirmMsg :: string
  loading :: bool
  statusMsg :: string
  errMsg2 :: string
  spinnerIdx :: int

text \<open>\<open>New(config)\<close>.\<close>

definition New :: "ClientConfig \<Rightarrow> Model" where
  "New config =
     \<lparr> width = 0, height = 0, screen = screenConnect,
       connectInputs = [\<lparr>tiValue = HTTPEndpoint config, tiFocus = True\<rparr>,
                        \<lparr>tiValue = GRPCClientToken config, tiFocus = False\<rparr>],
       connectInsecure = False, connectFocusIdx = 0, connectLoading = False,
       client = None, clientConfig = config, focused = panelConsumers,
       consumers = [], consumerCursor = 0, consumerOffset = 0,
       manifests = [], manifestCursor = 0, manifestOffset = 0,
       filterInput = \<lparr>tiValue = [], tiFocus = False\<rparr>, filtering = False, filterText = [],
       viewport = \<lparr>vpWidth = 60, vpHeight = 20, vpContent = [], vpYOffset = 0\<rparr>,
       detailContent = [], detailFormatted = [], detailJSON = [], detailYAML = [],
       detailRawJSON = [], detailRawYAML = [], detailViewMode = viewModeFormatted,
       searchInput = \<lparr>tiValue = [], tiFocus = False\<rparr>, searching = False, searchText = [],
       searchMatches = [], searchCurrent = 0,
       watching = False,
       showCreateConsumer = False, createInput = \<lparr>tiValue = [], tiFocus = False\<rparr>,
       showConfirm = False, confirmKind = [], confirmID = [], confirmName = [], confirmMsg = [],
       loading = False, statusMsg = [], errMsg2 = [], spinnerIdx = 0 \<rparr>"

section \<open>Helpers of the model\<close>

text \<open>
  \<^verbatim>\<open>int(float64(n) * 0.40)\<close>. The double nearest to 0.40 lies above 2/5 by less than
  \<open>3 * 10^-17\<close>, so for \<open>|n| < 2^50\<close> the product truncates to the integer part of
  \<open>2n/5\<close>.
\<close>

definition scale40 :: "int \<Rightarrow> int" where
  "scale40 n = goQuot (2 * n) 5"

definition filteredManifests :: "lib \<Rightarrow> Model \<Rightarrow> ResourceBundleSummary list" where
  "filteredManifests L m =
     (if filterText m = [] then manifests m
      else filter (\<lambda>mw. strContains (toLower L (rbName mw)) (toLower L (filterText m)))
             (manifests m))"

text \<open>\<open>selectedManifest\<close>: \<open>None\<close> is the nil pointer.\<close>

definition selectedManifest :: "lib \<Rightarrow> Model \<Rightarrow> error + ResourceBundleSummary option" where
  "selectedManifest L m =
     (let visible = filteredManifests L m in
      if length visible = 0 \<or> manifestCursor m \<ge> int (length visible) then Inr None
      else bindE (nthE visible (manifestCursor m)) (\<lambda>v. Inr (Some v)))"

definition activeDetailContent :: "Model \<Rightarrow> string" where
  "activeDetailContent m =
     (case detailViewMode m of
        viewModeJSON \<Rightarrow> if detailJSON m \<noteq> [] then detailJSON m else detailFormatted m
      | viewModeYAML \<Rightarrow> if detailYAML m \<noteq> [] then detailYAML m else detailFormatted m
      | viewModeFormatted \<Rightarrow> detailFormatted m)"

definition detailPanelDims :: "Model \<Rightarrow> int \<times> int" where
  "detailPanelDims m =
     (let leftW = scale40 (width m); rightW = width m - leftW; rightH = height m - 2
      in (rightW, rightH))"

definition clipboardContent :: "Model \<Rightarrow> string" where
  "clipboardContent m =
     (case detailViewMode m of
        viewModeJSON \<Rightarrow>
          if detailRawJSON m \<noteq> [] then detailRawJSON m else stripANSI (detailFormatted m)
      | viewModeYAML \<Rightarrow>
          if detailRawYAML m \<noteq> [] then detailRawYAML m else stripANSI (detailFormatted m)
      | viewModeFormatted \<Rightarrow> stripANSI (detailFormatted m))"

definition copyToClipboardCmd :: "Model \<Rightarrow> cmd" where
  "copyToClipboardCmd m = CopyToClipboardCmd (clipboardContent m)"

subsection \<open>Search helpers\<close>

abbreviation newline :: string where "newline \<equiv> [CHR 0x0A]"

record lineGroup =
  lgRanges :: "(int \<times> int) list"
  lgAbsIdxs :: "int list"

text \<open>The map \<open>byLine\<close> of \<open>applySearchHighlights\<close>, filled match by match.\<close>

definition addToGroup :: "(int \<rightharpoonup> lineGroup) \<Rightarrow> nat \<times> searchMatch \<Rightarrow> (int \<rightharpoonup> lineGroup)" where
  "addToGroup byLine p =
     (case p of (absIdx, sm) \<Rightarrow>
        let lg = (case byLine (smLine sm) of
                    None \<Rightarrow> \<lparr>lgRanges = [], lgAbsIdxs = []\<rparr>
                  | Some g \<Rightarrow> g)
        in byLine(smLine sm \<mapsto>
             lg\<lparr>lgRanges := lgRanges lg @ [(smStart sm, smEnd sm)],
                lgAbsIdxs := lgAbsIdxs lg @ [int absIdx]\<rparr>))"

definition groupByLine :: "searchMatch list \<Rightarrow> (int \<rightharpoonup> lineGroup)" where
  "groupByLine ms = foldl addToGroup Map.empty (enumerate 0 ms)"

fun highlightLines :: "(int \<rightharpoonup> lineGroup) \<Rightarrow> int \<Rightarrow> string list \<Rightarrow> nat \<Rightarrow> error + string list" where
  "highlightLines byLine cur [] i = Inr []"
| "highlightLines byLine cur (l # ls) i =
     bindE (case byLine (int i) of
              Some lg \<Rightarrow> injectBgHighlights l (lgRanges lg) (lgAbsIdxs lg) cur
            | None \<Rightarrow> Inr l)
       (\<lambda>r. bindE (highlightLines byLine cur ls (i + 1)) (\<lambda>rs. Inr (r # rs)))"

definition applySearchHighlights :: "lib \<Rightarrow> Model \<Rightarrow> string list \<Rightarrow> error + Model" where
  "applySearchHighlights L m lines =
     bindE (highlightLines (groupByLine (searchMatches m)) (searchCurrent m) lines 0)
       (\<lambda>result. Inr (m\<lparr>viewport := vpSetContent L (joinWith newline result) (viewport m)\<rparr>))"

definition scrollToMatch :: "lib \<Rightarrow> Model \<Rightarrow> int \<Rightarrow> error + Model" where
  "scrollToMatch L m idx =
     (if idx \<ge> int (length (searchMatches m)) then Inr m
      else
        bindE (nthE (searchMatches m) idx) (\<lambda>sm.
          let targetLine = smLine sm;
              offset = targetLine - goQuot (vpHeight (viewport m)) 4;
              offset' = (if offset < 0 then 0 else offset)
          in Inr (m\<lparr>viewport := vpSetYOffset L offset' (viewport m)\<rparr>)))"

definition rebuildSearch :: "lib \<Rightarrow> Model \<Rightarrow> error + Model" where
  "rebuildSearch L m =
     (if searchText m = [] then
        Inr (m\<lparr>searchMatches := [], searchCurrent := 0,
               viewport := vpSetContent L (detailContent m) (viewport m)\<rparr>)
      else
        let source = detailContent m;
            lines = splitOn (CHR 0x0A) source;
            lower = toLower L (searchText m)
        in
        bindE (scanLines (toLower L) lower (length (searchText m)) lines 0 []) (\<lambda>ms.
          let m1 = m\<lparr>searchMatches := ms\<rparr>;
              m2 = (if searchCurrent m1 \<ge> int (length (searchMatches m1))
                    then m1\<lparr>searchCurrent := 0\<rparr> else m1)
          in
          bindE (applySearchHighlights L m2 lines) (\<lambda>m3.
            if length (searchMatches m3) > 0 then scrollToMatch L m3 (searchCurrent m3)
            else Inr m3)))"

definition nextSearchMatch :: "lib \<Rightarrow> Model \<Rightarrow> error + Model" where
  "nextSearchMatch L m =
     (if length (searchMatches m) = 0 then Inr m
      else
        let m1 = m\<lparr>searchCurrent := goRem (searchCurrent m + 1) (int (length (searchMatches m)))\<rparr>
        in bindE (applySearchHighlights L m1 (splitOn (CHR 0x0A) (detailContent m1)))
             (\<lambda>m2. scrollToMatch L m2 (searchCurrent m2)))"

definition prevSearchMatch :: "lib \<Rightarrow> Model \<Rightarrow> error + Model" where
  "prevSearchMatch L m =
     (if length (searchMatches m) = 0 then Inr m
      else
        let m1 = m\<lparr>searchCurrent :=
                      goRem (searchCurrent m - 1 + int (length (searchMatches m)))
                        (int (length (searchMatches m)))\<rparr>
        in bindE (applySearchHighlights L m1 (splitOn (CHR 0x0A) (detailContent m1)))
             (\<lambda>m2. scrollToMatch L m2 (searchCurrent m2)))"

definition clearSearch :: "lib \<Rightarrow> Model \<Rightarrow> Model" where
  "clearSearch L m =
     m\<lparr>searching := False, searchText := [],
       searchInput := (searchInput m)\<lparr>tiValue := [], tiFocus := False\<rparr>,
       searchMatches := [], searchCurrent := 0,
       viewport := vpSetContent L (detailContent m) (viewport m)\<rparr>"

text \<open>\<open>cycleDetailViewMode\<close>: a method with no result; it issues no command.\<close>

definition cycleDetailViewMode :: "lib \<Rightarrow> Model \<Rightarrow> error + Model" where
  "cycleDetailViewMode L m =
     (let m1 = m\<lparr>detailViewMode := nextMode (detailViewMode m)\<rparr>;
          m2 = m1\<lparr>detailContent := activeDetailContent m1\<rparr>
      in if searchText m2 \<noteq> [] then rebuildSearch L m2
         else Inr (m2\<lparr>viewport := vpGotoTop L (vpSetContent L (detailContent m2) (viewport m2))\<rparr>))"

section \<open>Mouse handlers\<close>

text \<open>
  A handler returns the new model and the commands it issues, or panics. \<open>ok m\<close> is
  \<^verbatim>\<open>return m, nil\<close>.
\<close>

abbreviation ok :: "Model \<Rightarrow> error + Model \<times> cmd list" where
  "ok m \<equiv> Inr (m, [])"

definition mouseClickConsumer :: "lib \<Rightarrow> Model \<Rightarrow> int \<Rightarrow> error + Model \<times> cmd list" where
  "mouseClickConsumer L m y =
     (let headerRows = 2; itemY = y - headerRows in
      if itemY < 0 then ok (m\<lparr>focused := panelConsumers\<rparr>)
      else
        let idx = itemY + consumerOffset m in
        if idx \<ge> int (length (consumers m)) then ok (m\<lparr>focused := panelConsumers\<rparr>)
        else
          let m1 = m\<lparr>focused := panelConsumers, consumerCursor := idx, loading := True,
                     manifests := [], detailContent := [],
                     viewport := vpSetContent L [] (viewport m)\<rparr>
          in bindE (nthE (consumers m1) idx) (\<lambda>c.
               Inr (m1, [SpinnerTick, LoadManifests (client m1) (ciName c)])))"

definition mouseClickManifest :: "lib \<Rightarrow> Model \<Rightarrow> int \<Rightarrow> int \<Rightarrow> error + Model \<times> cmd list" where
  "mouseClickManifest L m y consumerH =
     (let headerRows = 3; panelY = y - consumerH; itemY = panelY - headerRows in
      if itemY < 0 then ok (m\<lparr>focused := panelManifests\<rparr>)
      else
        let visible = filteredManifests L m; idx = itemY + manifestOffset m in
        if idx \<ge> int (length visible) then ok (m\<lparr>focused := panelManifests\<rparr>)
        else
          let m1 = m\<lparr>focused := panelManifests, manifestCursor := idx\<rparr>
          in bindE (nthE visible idx) (\<lambda>mw. Inr (m1, [LoadDetail (client m1) mw])))"

definition handleMouse ::
  "lib \<Rightarrow> Model \<Rightarrow> int \<Rightarrow> int \<Rightarrow> mouseButton \<Rightarrow> mouseAction \<Rightarrow> error + Model \<times> cmd list" where
  "handleMouse L m x y button action =
     (if screen m \<noteq> screenMain then ok m
      else
        let leftW = scale40 (width m); totalH = height m - 1; consumerH = scale40 totalH in
        case button of
          MouseButtonLeft \<Rightarrow>
            if action \<noteq> MouseActionPress then ok m
            else if x < leftW then
              (if y < consumerH then mouseClickConsumer L m y
               else mouseClickManifest L m y consumerH)
            else ok (m\<lparr>focused := panelDetail\<rparr>)
        | MouseButtonWheelUp \<Rightarrow>
            if x < leftW then
              (if y < consumerH then
                 (if consumerCursor m > 0 then ok (m\<lparr>consumerCursor := consumerCursor m - 1\<rparr>)
                  else ok m)
               else
                 (if manifestCursor m > 0 then
                    let m1 = m\<lparr>manifestCursor := manifestCursor m - 1\<rparr> in
                    bindE (selectedManifest L m1) (\<lambda>sel.
                      case sel of
                        Some s \<Rightarrow> Inr (m1, [LoadDetail (client m1) s])
                      | None \<Rightarrow> ok m1)
                  else ok m))
            else ok (m\<lparr>viewport := vpScrollUp L 3 (viewport m)\<rparr>)
        | MouseButtonWheelDown \<Rightarrow>
            if x < leftW then
              (if y < consumerH then
                 (if consumerCursor m < int (length (consumers m)) - 1
                  then ok (m\<lparr>consumerCursor := consumerCursor m + 1\<rparr>)
                  else ok m)
               else
                 (let visible = filteredManifests L m in
                  if manifestCursor m < int (length visible) - 1 then
                    let m1 = m\<lparr>manifestCursor := manifestCursor m + 1\<rparr> in
                    bindE (selectedManifest L m1) (\<lambda>sel.
                      case sel of
                        Some s \<Rightarrow> Inr (m1, [LoadDetail (client m1) s])
                      | None \<Rightarrow> ok m1)
                  else ok m))
            else ok (m\<lparr>viewport := vpScrollDown L 3 (viewport m)\<rparr>)
        | MouseButtonOther \<Rightarrow> ok m)"

section \<open>Key handlers\<close>

definition syncConnectFocus :: "Model \<Rightarrow> error + Model" where
  "syncConnectFocus m =
     (let blurred = map (\<lambda>i. i\<lparr>tiFocus := False\<rparr>) (connectInputs m) in
      if connectFocusIdx m < 2 then
        bindE (nthE blurred (connectFocusIdx m)) (\<lambda>inp.
          Inr (m\<lparr>connectInputs := blurred[nat (connectFocusIdx m) := inp\<lparr>tiFocus := True\<rparr>]\<rparr>))
      else Inr (m\<lparr>connectInputs := blurred\<rparr>))"

definition doConnect :: "Model \<Rightarrow> error + Model \<times> cmd list" where
  "doConnect m =
     bindE (nthE (connectInputs m) 0) (\<lambda>ep.
     bindE (nthE (connectInputs m) 1) (\<lambda>tok.
       let m1 = m\<lparr>connectLoading := True, errMsg2 := [],
                  clientConfig := (clientConfig m)\<lparr>HTTPEndpoint := tiValue ep,
                                   GRPCClientToken := tiValue tok,
                                   GRPCInsecure := connectInsecure m\<rparr>\<rparr>
       in Inr (m1, [SpinnerTick, ConnectCmd (clientConfig m1)])))"

definition handleConnectKey :: "Model \<Rightarrow> keyType \<Rightarrow> string \<Rightarrow> error + Model \<times> cmd list" where
  "handleConnectKey m t s =
     (case t of
        KeyTab \<Rightarrow>
          bindE (syncConnectFocus (m\<lparr>connectFocusIdx := goRem (connectFocusIdx m + 1) 4\<rparr>)) ok
      | KeyShiftTab \<Rightarrow>
          bindE (syncConnectFocus (m\<lparr>connectFocusIdx := goRem (connectFocusIdx m + 3) 4\<rparr>)) ok
      | KeySpace \<Rightarrow>
          if connectFocusIdx m = 2 then ok (m\<lparr>connectInsecure := \<not> connectInsecure m\<rparr>)
          else ok m
      | KeyEnter \<Rightarrow>
          if connectFocusIdx m = 3 \<or> connectFocusIdx m = 1 then doConnect m
          else bindE (syncConnectFocus (m\<lparr>connectFocusIdx := goRem (connectFocusIdx m + 1) 4\<rparr>)) ok
      | _ \<Rightarrow> ok m)"

definition handleCreateConsumerKey ::
  "lib \<Rightarrow> Model \<Rightarrow> keyType \<Rightarrow> string \<Rightarrow> error + Model \<times> cmd list" where
  "handleCreateConsumerKey L m t s =
     (case t of
        KeyEscape \<Rightarrow>
          ok (m\<lparr>showCreateConsumer := False, createInput := (createInput m)\<lparr>tiValue := []\<rparr>\<rparr>)
      | KeyEnter \<Rightarrow>
          let name = trimSpace L (tiValue (createInput m)) in
          if name = [] then ok m
          else
            let m1 = m\<lparr>loading := True, errMsg2 := []\<rparr>
            in Inr (m1, [SpinnerTick, CreateConsumerCmd (client m1) name])
      | _ \<Rightarrow> ok m)"

definition handleConfirmKey :: "Model \<Rightarrow> keyType \<Rightarrow> string \<Rightarrow> error + Model \<times> cmd list" where
  "handleConfirmKey m t s =
     (if t = KeyEscape then ok (m\<lparr>showConfirm := False\<rparr>)
      else if s = ''y'' \<or> s = ''Y'' then
        let m1 = m\<lparr>loading := True, showConfirm := False, errMsg2 := []\<rparr> in
        if confirmKind m1 = ''consumer''
        then Inr (m1, [SpinnerTick, DeleteConsumerCmd (client m1) (confirmID m1)])
        else if confirmKind m1 = ''manifest''
        then Inr (m1, [SpinnerTick, DeleteManifestCmd (client m1) (confirmID m1)])
        else ok m1
      else ok m)"

text \<open>
  The case \<^verbatim>\<open>msg.String() == "w"\<close>, written twice in the source (work-list and detail
  panels) with the same body.
\<close>

definition toggleWatch :: "Model \<Rightarrow> error + Model \<times> cmd list" where
  "toggleWatch m =
     (let m1 = m\<lparr>watching := \<not> watching m\<rparr> in
      if watching m1 then Inr (m1\<lparr>statusMsg := ''Watch mode ON''\<rparr>, [WatchTick])
      else ok (m1\<lparr>statusMsg := ''Watch mode OFF''\<rparr>))"

definition handleConsumersKey ::
  "lib \<Rightarrow> Model \<Rightarrow> keyType \<Rightarrow> string \<Rightarrow> error + Model \<times> cmd list" where
  "handleConsumersKey L m t s =
     (if t = KeyTab then ok (m\<lparr>focused := panelManifests\<rparr>)
      else if t = KeyShiftTab then ok (m\<lparr>focused := panelDetail\<rparr>)
      else if s = ''up'' \<or> s = ''k'' then
        (if consumerCursor m > 0 then ok (m\<lparr>consumerCursor := consumerCursor m - 1\<rparr>) else ok m)
      else if s = ''down'' \<or> s = ''j'' then
        (if consumerCursor m < int (length (consumers m)) - 1
         then ok (m\<lparr>consumerCursor := consumerCursor m + 1\<rparr>) else ok m)
      else if t = KeyEnter then
        (if length (consumers m) > 0 then
           let m1 = m\<lparr>loading := True, manifests := [], detailContent := [],
                      viewport := vpSetContent L [] (viewport m)\<rparr>
           in bindE (nthE (consumers m1) (consumerCursor m1)) (\<lambda>c.
                Inr (m1, [SpinnerTick, LoadManifests (client m1) (ciName c)]))
         else ok m)
      else if s = ''n'' then
        ok (m\<lparr>showCreateConsumer := True,
              createInput := (createInput m)\<lparr>tiFocus := True, tiValue := []\<rparr>\<rparr>)
      else if s = ''d'' then
        (if length (consumers m) > 0 then
           bindE (nthE (consumers m) (consumerCursor m)) (\<lambda>c.
             ok (m\<lparr>showConfirm := True, confirmKind := ''consumer'', confirmID := ciID c,
                   confirmName := ciName c,
                   confirmMsg := ''Delete consumer '' @ quote L (ciName c) @ ''?''\<rparr>))
         else ok m)
      else if s = ''r'' then
        (let m1 = m\<lparr>loading := True\<rparr> in Inr (m1, [SpinnerTick, ReloadConsumers (client m1)]))
      else if s = ''y'' then Inr (m, [copyToClipboardCmd m])
      else ok m)"

definition handleManifestsKey ::
  "lib \<Rightarrow> Model \<Rightarrow> keyType \<Rightarrow> string \<Rightarrow> error + Model \<times> cmd list" where
  "handleManifestsKey L m t s =
     (if filtering m then
        (case t of
           KeyEscape \<Rightarrow>
             ok (m\<lparr>filtering := False, filterText := [],
                   filterInput := (filterInput m)\<lparr>tiValue := [], tiFocus := False\<rparr>,
                   manifestCursor := 0, manifestOffset := 0\<rparr>)
         | KeyEnter \<Rightarrow>
             ok (m\<lparr>filtering := False, filterInput := (filterInput m)\<lparr>tiFocus := False\<rparr>\<rparr>)
         | _ \<Rightarrow> ok m)
      else if t = KeyTab then ok (m\<lparr>focused := panelDetail\<rparr>)
      else if t = KeyShiftTab then ok (m\<lparr>focused := panelConsumers\<rparr>)
      else if s = ''up'' \<or> s = ''k'' then
        (let visible = filteredManifests L m in
         if manifestCursor m > 0 then
           let m1 = m\<lparr>manifestCursor := manifestCursor m - 1\<rparr>;
               m2 = (if manifestCursor m1 < manifestOffset m1
                     then m1\<lparr>manifestOffset := manifestCursor m1\<rparr> else m1)
           in if length visible > 0 then
                bindE (nthE visible (manifestCursor m2)) (\<lambda>mw. Inr (m2, [LoadDetail (client m2) mw]))
              else ok m2
         else ok m)
      else if s = ''down'' \<or> s = ''j'' then
        (let visible = filteredManifests L m in
         if manifestCursor m < int (length visible) - 1 then
           let m1 = m\<lparr>manifestCursor := manifestCursor m + 1\<rparr>
           in bindE (nthE visible (manifestCursor m1)) (\<lambda>mw. Inr (m1, [LoadDetail (client m1) mw]))
         else ok m)
      else if s = ''/'' then
        ok (m\<lparr>filtering := True, filterInput := (filterInput m)\<lparr>tiFocus := True\<rparr>\<rparr>)
      else if s = ''w'' then toggleWatch m
      else if s = ''v'' then bindE (cycleDetailViewMode L m) ok
      else if s = ''d'' then
        (let visible = filteredManifests L m in
         if length visible > 0 then
           bindE (nthE visible (manifestCursor m)) (\<lambda>mw.
             ok (m\<lparr>showConfirm := True, confirmKind := ''manifest'', confirmID := rbID mw,
                   confirmName := rbName mw,
                   confirmMsg := ''Delete ManifestWork '' @ quote L (rbName mw) @ ''?''\<rparr>))
         else ok m)
      else if s = ''r'' then
        (if length (consumers m) > 0 then
           let m1 = m\<lparr>loading := True\<rparr>
           in bindE (nthE (consumers m1) (consumerCursor m1)) (\<lambda>c.
                Inr (m1, [SpinnerTick, LoadManifests (client m1) (ciName c)]))
         else ok m)
      else if s = ''y'' then Inr (m, [copyToClipboardCmd m])
      else ok m)"

definition handleDetailKey ::
  "lib \<Rightarrow> Model \<Rightarrow> keyType \<Rightarrow> string \<Rightarrow> error + Model \<times> cmd list" where
  "handleDetailKey L m t s =
     (if searching m then
        (case t of
           KeyEscape \<Rightarrow> ok (clearSearch L m)
         | KeyEnter \<Rightarrow> bindE (nextSearchMatch L m) ok
         | _ \<Rightarrow> ok m)
      else if t = KeyTab then ok (m\<lparr>focused := panelConsumers\<rparr>)
      else if t = KeyShiftTab then ok (m\<lparr>focused := panelManifests\<rparr>)
      else if s = ''/'' then
        ok (m\<lparr>searching := True, searchInput := (searchInput m)\<lparr>tiFocus := True\<rparr>\<rparr>)
      else if s = ''n'' then bindE (nextSearchMatch L m) ok
      else if s = ''N'' then bindE (prevSearchMatch L m) ok
      else if s = ''w'' then toggleWatch m
      else if s = ''v'' then bindE (cycleDetailViewMode L m) ok
      else if s = ''y'' then Inr (m, [copyToClipboardCmd m])
      else if s = ''r'' then
        bindE (selectedManifest L m) (\<lambda>sel.
          case sel of
            Some mw \<Rightarrow> (let m1 = m\<lparr>loading := True\<rparr>
                        in Inr (m1, [SpinnerTick, LoadDetail (client m1) mw]))
          | None \<Rightarrow> ok m)
      else
        (case vpUpdate L (KeyMsg t s) (viewport m) of
           (updated, c) \<Rightarrow> Inr (m\<lparr>viewport := updated\<rparr>, map LibCmd c)))"

definition handleMainKey :: "lib \<Rightarrow> Model \<Rightarrow> keyType \<Rightarrow> string \<Rightarrow> error + Model \<times> cmd list" where
  "handleMainKey L m t s =
     (case focused m of
        panelConsumers \<Rightarrow> handleConsumersKey L m t s
      | panelManifests \<Rightarrow> handleManifestsKey L m t s
      | panelDetail \<Rightarrow> handleDetailKey L m t s)"

section \<open>\<open>Update\<close>\<close>

text \<open>
  Step 1 of \<open>Update\<close>: every message goes first to the sub-component that is active.
\<close>

definition forwardToActive :: "lib \<Rightarrow> Model \<Rightarrow> msg \<Rightarrow> error + Model \<times> cmd list" where
  "forwardToActive L m message =
     (case screen m of
        screenConnect \<Rightarrow>
          if connectFocusIdx m < 2 then
            bindE (nthE (connectInputs m) (connectFocusIdx m)) (\<lambda>inp.
              case tiUpdate L message inp of
                (updated, c) \<Rightarrow>
                  Inr (m\<lparr>connectInputs := (connectInputs m)[nat (connectFocusIdx m) := updated]\<rparr>,
                       map LibCmd c))
          else ok m
      | screenMain \<Rightarrow>
          if showCreateConsumer m then
            (case tiUpdate L message (createInput m) of
               (updated, c) \<Rightarrow> Inr (m\<lparr>createInput := updated\<rparr>, map LibCmd c))
          else if filtering m then
            (let prevFilter = filterText m in
             case tiUpdate L message (filterInput m) of
               (updated, c) \<Rightarrow>
                 let m1 = m\<lparr>filterInput := updated, filterText := tiValue updated\<rparr>;
                     m2 = (if filterText m1 \<noteq> prevFilter
                           then m1\<lparr>manifestCursor := 0, manifestOffset := 0\<rparr> else m1)
                 in Inr (m2, map LibCmd c))
          else if searching m then
            (let prevText = searchText m in
             case tiUpdate L message (searchInput m) of
               (updated, c) \<Rightarrow>
                 let m1 = m\<lparr>searchInput := updated, searchText := tiValue updated\<rparr>
                 in if searchText m1 \<noteq> prevText
                    then bindE (rebuildSearch L m1) (\<lambda>m2. Inr (m2, map LibCmd c))
                    else Inr (m1, map LibCmd c))
          else if focused m = panelDetail then
            (case vpUpdate L message (viewport m) of
               (updated, c) \<Rightarrow> Inr (m\<lparr>viewport := updated\<rparr>, map LibCmd c))
          else ok m)"

text \<open>Step 2 of \<open>Update\<close>: the type switch. The result holds the commands of this step.\<close>

definition handleMsg :: "lib \<Rightarrow> Model \<Rightarrow> msg \<Rightarrow> error + Model \<times> cmd list" where
  "handleMsg L m message =
     (case message of
        WindowSizeMsg w h \<Rightarrow>
          let m1 = m\<lparr>width := w, height := h\<rparr> in
          (case detailPanelDims m1 of
             (vpW, vpH) \<Rightarrow>
               ok (m1\<lparr>viewport :=
                        vpSetContent L (detailContent m1)
                          ((viewport m1)\<lparr>vpWidth := vpW - 4, vpHeight := vpH - 4\<rparr>)\<rparr>))
      | SpinnerTickMsg \<Rightarrow>
          if loading m \<or> connectLoading m
          then Inr (m\<lparr>spinnerIdx := goRem (spinnerIdx m + 1) 10\<rparr>, [SpinnerTick])
          else ok m
      | ErrMsg e \<Rightarrow>
          ok (m\<lparr>loading := False, connectLoading := False, errMsg2 := e, statusMsg := []\<rparr>)
      | ConnectedMsg cl cs \<Rightarrow>
          let m1 = m\<lparr>client := cl, consumers := cs, consumerCursor := 0, consumerOffset := 0,
                     screen := screenMain, connectLoading := False, loading := False,
                     statusMsg := ''Connected '' @ [CHR 0xE2, CHR 0x80, CHR 0x94] @ '' '' @
                                  itoa (length cs) @ '' consumer(s)'',
                     errMsg2 := []\<rparr>
          in if length (consumers m1) > 0 then
               let m2 = (if length (consumers m1) = 1 then m1\<lparr>focused := panelManifests\<rparr> else m1)
               in bindE (nthE (consumers m2) 0) (\<lambda>c.
                    Inr (m2, [LoadManifests (client m2) (ciName c)]))
             else ok m1
      | ConsumersLoadedMsg cs \<Rightarrow>
          ok (m\<lparr>consumers := cs, consumerCursor := 0, consumerOffset := 0, loading := False,
                statusMsg := itoa (length cs) @ '' consumer(s)''\<rparr>)
      | ManifestsLoadedMsg ms \<Rightarrow>
          let m1 = m\<lparr>manifests := ms, manifestCursor := 0, manifestOffset := 0, loading := False\<rparr>
          in if length (manifests m1) > 0 then
               bindE (nthE (manifests m1) 0) (\<lambda>mw. Inr (m1, [LoadDetail (client m1) mw]))
             else ok m1
      | DetailLoadedMsg detail jsonData yamlData rawJSON rawYAML \<Rightarrow>
          let m1 = m\<lparr>loading := False, detailFormatted := renderDetail L detail,
                     detailJSON := jsonData, detailYAML := yamlData,
                     detailRawJSON := rawJSON, detailRawYAML := rawYAML\<rparr>;
              m2 = m1\<lparr>detailContent := activeDetailContent m1\<rparr>
          in bindE (if searchText m2 \<noteq> [] then rebuildSearch L m2
                    else Inr (m2\<lparr>viewport :=
                                   vpGotoTop L (vpSetContent L (detailContent m2) (viewport m2))\<rparr>))
               (\<lambda>m3. if watching m3 then Inr (m3, [WatchTick]) else ok m3)
      | WatchTickMsg \<Rightarrow>
          if watching m \<and> client m \<noteq> None then
            bindE (selectedManifest L m) (\<lambda>selected.
              case selected of
                Some mw \<Rightarrow> Inr (m, [LoadDetail (client m) mw])
              | None \<Rightarrow> ok m)
          else ok m
      | ConsumerCreatedMsg c \<Rightarrow>
          let m1 = m\<lparr>loading := False, showCreateConsumer := False,
                     createInput := (createInput m)\<lparr>tiValue := []\<rparr>,
                     statusMsg := ''Consumer '' @ quote L (ciName c) @ '' created''\<rparr>
          in Inr (m1, [ReloadConsumers (client m1)])
      | ConsumerDeletedMsg \<Rightarrow>
          let m1 = m\<lparr>loading := False, showConfirm := False, statusMsg := ''Consumer deleted'',
                     manifests := [], detailContent := [],
                     viewport := vpSetContent L [] (viewport m)\<rparr>
          in Inr (m1, [ReloadConsumers (client m1)])
      | ManifestDeletedMsg \<Rightarrow>
          let m1 = m\<lparr>loading := False, showConfirm := False, statusMsg := ''ManifestWork deleted'',
                     detailContent := [], viewport := vpSetContent L [] (viewport m)\<rparr>
          in if length (consumers m1) > 0 then
               bindE (nthE (consumers m1) (consumerCursor m1)) (\<lambda>c.
                 Inr (m1, [LoadManifests (client m1) (ciName c)]))
             else ok m1
      | ClipboardMsg err \<Rightarrow>
          (case err of
             Some e \<Rightarrow> ok (m\<lparr>statusMsg := [], errMsg2 := ''clipboard: '' @ e\<rparr>)
           | None \<Rightarrow> ok (m\<lparr>errMsg2 := [], statusMsg := ''Copied to clipboard!''\<rparr>))
      | MouseMsg x y button action \<Rightarrow> handleMouse L m x y button action
      | KeyMsg t s \<Rightarrow>
          (case screen m of
             screenConnect \<Rightarrow> handleConnectKey m t s
           | screenMain \<Rightarrow>
               if showCreateConsumer m then handleCreateConsumerKey L m t s
               else if showConfirm m then handleConfirmKey m t s
               else handleMainKey L m t s)
      | OtherMsg n \<Rightarrow> ok m)"

text \<open>
  \<open>Update\<close>: step 1, then step 2 on the model step 1 returns; the commands of both are
  batched. Ctrl-C returns \<open>tea.Quit\<close> alone.
\<close>

definition Update :: "lib \<Rightarrow> Model \<Rightarrow> msg \<Rightarrow> error + Model \<times> cmd list" where
  "Update L m message =
     bindE (forwardToActive L m message) (\<lambda>(m1, cmds).
       case message of
         KeyMsg KeyCtrlC s \<Rightarrow> Inr (m1, [Quit])
       | _ \<Rightarrow> bindE (handleMsg L m1 message) (\<lambda>(m2, cmds2). Inr (m2, cmds @ cmds2)))"

text \<open>
  A run of the event loop: the messages are applied in order, the commands issued are
  collected in order.
\<close>

fun run :: "lib \<Rightarrow> Model \<Rightarrow> msg list \<Rightarrow> error + Model \<times> cmd list" where
  "run L m [] = ok m"
| "run L m (message # rest) =
     bindE (Update L m message) (\<lambda>(m1, cmds).
       bindE (run L m1 rest) (\<lambda>(m2, cmds2). Inr (m2, cmds @ cmds2)))"

text \<open>
  A stand-in for the library in the examples: a focused text input appends typed runes
  and ignores every other message, a viewport stores its content and offset,
  \<open>strings.ToLower\<close> and \<open>strings.TrimSpace\<close> act on ASCII.
\<close>

definition exampleLib :: lib where
  "exampleLib =
     \<lparr> toLower = toLowerASCII,
       trimSpace = (\<lambda>s. rev (dropWhile (\<lambda>c. c = CHR '' '') (rev (dropWhile (\<lambda>c. c = CHR '' '') s)))),
       quote = (\<lambda>s. [CHR 0x22] @ s @ [CHR 0x22]),
       renderDetail = (\<lambda>d. ''Name: job-1''),
       tiUpdate = (\<lambda>message ti.
          case message of
            KeyMsg KeyRunes s \<Rightarrow> (if tiFocus ti then (ti\<lparr>tiValue := tiValue ti @ s\<rparr>, []) else (ti, []))
          | _ \<Rightarrow> (ti, [])),
       vpUpdate = (\<lambda>message vp. (vp, [])),
       vpSetContent = (\<lambda>s vp. vp\<lparr>vpContent := s\<rparr>),
       vpGotoTop = (\<lambda>vp. vp\<lparr>vpYOffset := 0\<rparr>),
       vpSetYOffset = (\<lambda>n vp. vp\<lparr>vpYOffset := n\<rparr>),
       vpScrollUp = (\<lambda>n vp. vp\<lparr>vpYOffset := max 0 (vpYOffset vp - n)\<rparr>),
       vpScrollDown = (\<lambda>n vp. vp\<lparr>vpYOffset := vpYOffset vp + n\<rparr>) \<rparr>"

section \<open>Properties of search matches\<close>

text \<open>What the scan of one line guarantees for the matches it appends.\<close>

definition lineMatch :: "string \<Rightarrow> string \<Rightarrow> nat \<Rightarrow> nat \<Rightarrow> nat \<Rightarrow> searchMatch \<Rightarrow> bool" where
  "lineMatch lplain lower qlen lineIdx pos sm \<longleftrightarrow>
     smLine sm = int lineIdx \<and> int pos \<le> smStart sm \<and> smEnd sm = smStart sm + int qlen \<and>
     prefix lower (drop (nat (smStart sm)) lplain)"

text \<open>
  A match of the document: its line exists, and the lowered query is found at its start
  in the lowered plain text of that line. \<open>li\<close> is the number of the first line of \<open>lines\<close>.
\<close>

definition docMatch ::
  "(string \<Rightarrow> string) \<Rightarrow> string \<Rightarrow> nat \<Rightarrow> nat \<Rightarrow> string list \<Rightarrow> searchMatch \<Rightarrow> bool" where
  "docMatch low lower qlen li lines sm \<longleftrightarrow>
     int li \<le> smLine sm \<and> nat (smLine sm) - li < length lines \<and> 0 \<le> smStart sm \<and>
     smEnd sm = smStart sm + int qlen \<and>
     prefix lower (drop (nat (smStart sm)) (low (stripANSI (lines ! (nat (smLine sm) - li)))))"

text \<open>Document order without overlap: an earlier line, or the same line and no overlap.\<close>

definition before :: "searchMatch \<Rightarrow> searchMatch \<Rightarrow> bool" where
  "before a b \<longleftrightarrow> smLine a < smLine b \<or> (smLine a = smLine b \<and> smEnd a \<le> smStart b)"

text \<open>A range \<open>[start, end)\<close> in plain-text coordinates.\<close>

definition validRange :: "int \<times> int \<Rightarrow> bool" where
  "validRange r \<longleftrightarrow> 0 \<le> fst r \<and> fst r \<le> snd r"

text \<open>Every group of \<open>byLine\<close> holds ranges and one absolute index for each.\<close>

definition groupInv :: "(int \<rightharpoonup> lineGroup) \<Rightarrow> bool" where
  "groupInv byLine \<longleftrightarrow>
     (\<forall>i lg. byLine i = Some lg \<longrightarrow>
        list_all validRange (lgRanges lg) \<and> length (lgRanges lg) \<le> length (lgAbsIdxs lg))"

section \<open>Example data\<close>

definition cfg0 :: ClientConfig where
  "cfg0 = \<lparr>HTTPEndpoint = ''http://localhost:8000'', GRPCClientToken = [], GRPCInsecure = False\<rparr>"

definition consumer1 :: ConsumerInfo where
  "consumer1 = \<lparr>ciID = ''1'', ciName = ''c1''\<rparr>"

definition consumer2 :: ConsumerInfo where
  "consumer2 = \<lparr>ciID = ''2'', ciName = ''c2''\<rparr>"

definition work1 :: ResourceBundleSummary where
  "work1 = \<lparr>rbID = ''a'', rbName = ''nginx-a'', rbConsumerName = ''c1''\<rparr>"

definition work2 :: ResourceBundleSummary where
  "work2 = \<lparr>rbID = ''b'', rbName = ''nginx-b'', rbConsumerName = ''c1''\<rparr>"

text \<open>A detail content of two lines, with \<open>Job\<close> twice and \<open>JOB\<close> once.\<close>

definition jobContent :: string where
  "jobContent =
     ''Kind: '' @ ESC # ''[32mJob'' @ ESC # ''[0m'' @ newline @ ''status: JOB done, next Job''"

definition jobModel :: Model where
  "jobModel = (New cfg0)\<lparr>detailContent := jobContent, searchText := ''job''\<rparr>"

text \<open>
  A main screen of 100 columns and 41 rows: the left column is 40 wide, the consumers
  region 16 high; the work list is scrolled by one row.
\<close>

definition hitModel :: Model where
  "hitModel = (New cfg0)\<lparr>screen := screenMain, width := 100, height := 41,
                 consumers := [consumer1, consumer2], manifests := [work1, work2],
                 manifestOffset := 1\<rparr>"





text \<open>
  The Kelvin sign U+212A, three bytes in UTF-8. \<open>strings.ToLower\<close> maps it to the
  letter \<open>k\<close>, one byte; \<open>kelvinLib\<close> is the stand-in library with that case of
  \<open>strings.ToLower\<close> added.
\<close>

definition kelvin :: string where
  "kelvin = [CHR 0xE2, CHR 0x84, CHR 0xAA]"

definition kelvinLib :: lib where
  "kelvinLib = exampleLib\<lparr>toLower := (\<lambda>s. if s = kelvin then ''k'' else toLowerASCII s)\<rparr>"

section \<open>Properties of \<open>Update\<close>\<close>

text \<open>
  The fields step 1 of \<open>Update\<close> never writes: all but the text inputs, the filter text
  and the work-list cursor it resets, the search text and matches, and the viewport.
\<close>

definition sameOutsideInputs :: "Model \<Rightarrow> Model \<Rightarrow> bool" where
  "sameOutsideInputs m m1 \<longleftrightarrow>
     width m1 = width m \<and> height m1 = height m \<and> screen m1 = screen m \<and>
     connectInsecure m1 = connectInsecure m \<and> connectFocusIdx m1 = connectFocusIdx m \<and>
     connectLoading m1 = connectLoading m \<and> client m1 = client m \<and>
     clientConfig m1 = clientConfig m \<and> focused m1 = focused m \<and>
     consumers m1 = consumers m \<and> consumerCursor m1 = consumerCursor m \<and>
     consumerOffset m1 = consumerOffset m \<and> manifests m1 = manifests m \<and>
     filtering m1 = filtering m \<and> detailContent m1 = detailContent m \<and>
     detailFormatted m1 = detailFormatted m \<and> detailJSON m1 = detailJSON m \<and>
     detailYAML m1 = detailYAML m \<and> detailRawJSON m1 = detailRawJSON m \<and>
     detailRawYAML m1 = detailRawYAML m \<and> detailViewMode m1 = detailViewMode m \<and>
     searching m1 = searching m \<and> watching m1 = watching m \<and>
     showCreateConsumer m1 = showCreateConsumer m \<and> showConfirm m1 = showConfirm m \<and>
     confirmKind m1 = confirmKind m \<and> confirmID m1 = confirmID m \<and>
     confirmName m1 = confirmName m \<and> confirmMsg m1 = confirmMsg m \<and>
     loading m1 = loading m \<and> statusMsg m1 = statusMsg m \<and> errMsg2 m1 = errMsg2 m \<and>
     spinnerIdx m1 = spinnerIdx m"




definition captureModes :: "error + Model \<times> cmd list \<Rightarrow> error + bool \<times> bool \<times> bool \<times> bool" where
  "captureModes r =
     map_sum id (\<lambda>(m, c). (filtering m, searching m, showCreateConsumer m, showConfirm m)) r"


section \<open>Properties of the offset mapper\<close>

lemma isLetter_not_isParam: "isLetter c \<Longrightarrow> \<not> isParam c"
  by (auto simp: isLetter_def isParam_def less_eq_char_def)

lemma ESC_not_isParam: "\<not> isParam ESC"
  by (simp add: isParam_def less_eq_char_def)

lemma decorated_simps:
  "decorated [] = []"
  "decorated (Plain c # segs) = c # decorated segs"
  "decorated (Csi ps l # segs) = ESC # CHR ''['' # ps @ l # decorated segs"
  by (simp_all add: decorated_def)

lemma skipParams_run:
  "list_all isParam ps \<Longrightarrow> rest = [] \<or> \<not> isParam (hd rest) \<Longrightarrow>
   skipParams (pre @ ps @ rest) (length pre) = Inr (length pre + length ps)"
proof (induction ps arbitrary: pre)
  case Nil
  then show ?case
    by (subst skipParams.simps) (cases rest; auto simp: byteAt_def nth_append)
next
  case (Cons p ps)
  have "skipParams ((pre @ [p]) @ ps @ rest) (length (pre @ [p])) =
        Inr (length (pre @ [p]) + length ps)"
    using Cons.prems by (intro Cons.IH) auto
  then have step: "skipParams (pre @ p # ps @ rest) (length pre + 1) = Inr (length pre + length (p # ps))"
    by simp
  have "isParam p" using Cons.prems by simp
  with step show ?case
    by (subst skipParams.simps) (simp add: byteAt_def nth_append)
qed

lemma skipParams_total: "\<exists>k. skipParams s j = Inr k"
proof (induction s j rule: skipParams.induct)
  case (1 s j)
  show ?case
  proof (cases "j < length s \<and> isParam (s ! j)")
    case True
    then obtain k where "skipParams s (j + 1) = Inr k"
      using "1.IH"[of "s ! j"] by (auto simp: byteAt_def)
    with True show ?thesis
      by (subst skipParams.simps) (simp add: byteAt_def)
  next
    case False
    then show ?thesis
      by (subst skipParams.simps) (auto simp: byteAt_def)
  qed
qed

lemma csiStartAt_total: "i < length s \<Longrightarrow> \<exists>b. csiStartAt s i = Inr b"
  by (auto simp: csiStartAt_def byteAt_def)

lemma buildCharMapLoop_total: "\<exists>cm. buildCharMapLoop s i charMap = Inr cm"
proof (induction s i charMap rule: buildCharMapLoop.induct)
  case (1 s i charMap)
  show ?case
  proof (cases "i < length s")
    case False
    then show ?thesis by (subst buildCharMapLoop.simps) simp
  next
    case True
    then obtain b where b: "csiStartAt s i = Inr b"
      using csiStartAt_total by blast
    show ?thesis
    proof (cases b)
      case False
      with True b "1.IH"(2)[of b] show ?thesis
        by (subst buildCharMapLoop.simps) simp
    next
      case bt: True
      obtain j where j: "skipParams s (i + 2) = Inr j"
        using skipParams_total by blast
      with True b bt "1.IH"(1)[of b j] show ?thesis
        by (subst buildCharMapLoop.simps) simp
    qed
  qed
qed

lemma csiStartAt_plain:
  "c \<noteq> ESC \<Longrightarrow> csiStartAt (pre @ c # rest) (length pre) = Inr False"
  by (simp add: csiStartAt_def byteAt_def)

lemma csiStartAt_csi:
  "csiStartAt (pre @ ESC # CHR ''['' # rest) (length pre) = Inr True"
  by (simp add: csiStartAt_def byteAt_def nth_append)

lemma loop_plain:
  "c \<noteq> ESC \<Longrightarrow>
   buildCharMapLoop (pre @ c # rest) (length pre) cm =
   buildCharMapLoop (pre @ c # rest) (length pre + 1) (cm @ [length pre])"
  by (subst buildCharMapLoop.simps) (simp add: csiStartAt_plain)

lemma loop_csi:
  assumes "list_all isParam ps" and "\<not> isParam l"
  shows "buildCharMapLoop (pre @ ESC # CHR ''['' # ps @ l # rest) (length pre) cm =
         buildCharMapLoop (pre @ ESC # CHR ''['' # ps @ l # rest) (length pre + length ps + 3) cm"
proof -
  let ?s = "pre @ ESC # CHR ''['' # ps @ l # rest"
  have "skipParams ((pre @ [ESC, CHR ''['']) @ ps @ (l # rest)) (length (pre @ [ESC, CHR ''['']))
        = Inr (length (pre @ [ESC, CHR ''['']) + length ps)"
    using assms by (intro skipParams_run) auto
  then have sk: "skipParams ?s (length pre + 2) = Inr (length pre + length ps + 2)"
    by simp
  from sk show ?thesis
    by (subst buildCharMapLoop.simps) (simp add: csiStartAt_csi numeral_3_eq_3)
qed

lemma loop_unterminated:
  assumes "list_all isParam ps"
  shows "buildCharMapLoop (pre @ ESC # CHR ''['' # ps) (length pre) cm =
         Inr (cm @ [length pre + length ps + 2])"
proof -
  let ?s = "pre @ ESC # CHR ''['' # ps"
  have "skipParams ((pre @ [ESC, CHR ''['']) @ ps @ []) (length (pre @ [ESC, CHR ''['']))
        = Inr (length (pre @ [ESC, CHR ''['']) + length ps)"
    using assms by (intro skipParams_run) auto
  then have sk: "skipParams ?s (length pre + 2) = Inr (length pre + length ps + 2)"
    by simp
  have fin: "buildCharMapLoop ?s (length pre + length ps + 2) cm = Inr (cm @ [length pre + length ps + 2])"
    by (subst buildCharMapLoop.simps) simp
  from sk fin show ?thesis
    by (subst buildCharMapLoop.simps) (simp add: csiStartAt_csi)
qed

lemma plainOffsets_nonempty: "plainOffsets off segs \<noteq> []"
  by (induction off segs rule: plainOffsets.induct) simp_all

lemma plainOffsets_last: "last (plainOffsets off segs) = off + length (decorated segs)"
  by (induction off segs rule: plainOffsets.induct)
     (simp_all add: decorated_simps plainOffsets_nonempty)

lemma plainOffsets_length: "length (plainOffsets off segs) = length (plainText segs) + 1"
  by (induction off segs rule: plainOffsets.induct) simp_all

lemma loop_decorated_prefix:
  "list_all validSeg segs \<Longrightarrow>
   buildCharMapLoop (pre @ decorated segs @ rest) (length pre) cm =
   buildCharMapLoop (pre @ decorated segs @ rest) (length pre + length (decorated segs))
     (cm @ butlast (plainOffsets (length pre) segs))"
proof (induction segs arbitrary: pre cm)
  case Nil
  show ?case by (simp add: decorated_simps)
next
  case (Cons sg segs)
  show ?case
  proof (cases sg)
    case (Plain c)
    with Cons.prems have c: "c \<noteq> ESC" and v: "list_all validSeg segs" by simp_all
    have "buildCharMapLoop ((pre @ [c]) @ decorated segs @ rest) (length (pre @ [c])) (cm @ [length pre])
          = buildCharMapLoop ((pre @ [c]) @ decorated segs @ rest)
              (length (pre @ [c]) + length (decorated segs))
              ((cm @ [length pre]) @ butlast (plainOffsets (length (pre @ [c])) segs))"
      using v by (rule Cons.IH)
    with c Plain show ?thesis
      using loop_plain[of c pre "decorated segs @ rest" cm]
      by (simp add: decorated_simps plainOffsets_nonempty)
  next
    case (Csi ps l)
    with Cons.prems have p: "list_all isParam ps" and l: "\<not> isParam l" and v: "list_all validSeg segs"
      by (simp_all add: isLetter_not_isParam)
    let ?e = "ESC # CHR ''['' # ps @ [l]"
    have "buildCharMapLoop ((pre @ ?e) @ decorated segs @ rest) (length (pre @ ?e)) cm
          = buildCharMapLoop ((pre @ ?e) @ decorated segs @ rest)
              (length (pre @ ?e) + length (decorated segs))
              (cm @ butlast (plainOffsets (length (pre @ ?e)) segs))"
      using v by (rule Cons.IH)
    with Csi show ?thesis
      using loop_csi[OF p l, of pre "decorated segs @ rest" cm]
      by (simp add: decorated_simps numeral_3_eq_3 add.assoc)
  qed
qed

lemma loop_decorated:
  assumes "list_all validSeg segs"
  shows "buildCharMapLoop (pre @ decorated segs) (length pre) cm =
         Inr (cm @ plainOffsets (length pre) segs)"
proof -
  let ?s = "pre @ decorated segs"
  have "buildCharMapLoop ?s (length pre) cm =
        buildCharMapLoop ?s (length ?s) (cm @ butlast (plainOffsets (length pre) segs))"
    using loop_decorated_prefix[OF assms, of pre "[]" cm] by simp
  also have "\<dots> = Inr ((cm @ butlast (plainOffsets (length pre) segs)) @ [length ?s])"
    by (subst buildCharMapLoop.simps) simp
  finally have run: "buildCharMapLoop ?s (length pre) cm =
        Inr (cm @ butlast (plainOffsets (length pre) segs) @ [length ?s])"
    by simp
  have "butlast (plainOffsets (length pre) segs) @ [length ?s] = plainOffsets (length pre) segs"
    using append_butlast_last_id[OF plainOffsets_nonempty, of "length pre" segs]
    by (simp add: plainOffsets_last)
  with run show ?thesis by simp
qed

lemma loop_decorated_unterminated:
  assumes "list_all validSeg segs" and "list_all isParam ps"
  shows "buildCharMapLoop (decorated segs @ ESC # CHR ''['' # ps) 0 [] =
         Inr (butlast (plainOffsets 0 segs) @ [length (decorated segs @ ESC # CHR ''['' # ps)])"
proof -
  let ?s = "decorated segs @ ESC # CHR ''['' # ps"
  have "buildCharMapLoop ?s 0 [] =
        buildCharMapLoop ?s (length (decorated segs)) (butlast (plainOffsets 0 segs))"
    using loop_decorated_prefix[OF assms(1), of "[]" "ESC # CHR ''['' # ps" "[]"] by simp
  also have "\<dots> = Inr (butlast (plainOffsets 0 segs) @ [length (decorated segs) + length ps + 2])"
    by (rule loop_unterminated[OF assms(2)])
  finally show ?thesis by simp
qed

lemma buildCharMap_decorated:
  "list_all validSeg segs \<Longrightarrow> buildCharMap (decorated segs) = Inr (plainOffsets 0 segs)"
  using loop_decorated[of segs "[]" "[]"] by (simp add: buildCharMap_def)

section \<open>Properties of escape stripping\<close>

lemma stripANSI_plain: "c \<noteq> ESC \<Longrightarrow> stripANSI (c # t) = c # stripANSI t"
  by (cases t) (simp_all add: csiMatch_def stripANSI.simps(2))

lemma stripANSI_csi:
  assumes "list_all isParam ps" and "isLetter l"
  shows "stripANSI (ESC # CHR ''['' # ps @ l # t) = stripANSI t"
proof -
  have "dropWhile isParam (ps @ l # t) = l # t"
    using assms by (simp add: list_all_iff isLetter_not_isParam)
  then have "csiMatch (ESC # CHR ''['' # ps @ l # t) = Some t"
    using assms(2) by (simp add: csiMatch_def)
  then show ?thesis by (simp add: stripANSI.simps(2))
qed

lemma stripANSI_decorated_append:
  "list_all validSeg segs \<Longrightarrow> stripANSI (decorated segs @ z) = plainText segs @ stripANSI z"
proof (induction segs)
  case Nil
  show ?case by (simp add: decorated_simps)
next
  case (Cons sg segs)
  then show ?case
    by (cases sg) (simp_all add: decorated_simps stripANSI_plain stripANSI_csi)
qed

lemma stripANSI_decorated:
  "list_all validSeg segs \<Longrightarrow> stripANSI (decorated segs) = plainText segs"
  using stripANSI_decorated_append[of segs "[]"] by simp

lemma plainOffsets_ge: "x \<in> set (plainOffsets off segs) \<Longrightarrow> off \<le> x"
  by (induction off segs rule: plainOffsets.induct) auto

lemma plainOffsets_le:
  "x \<in> set (plainOffsets off segs) \<Longrightarrow> x \<le> off + length (decorated segs)"
  by (induction off segs rule: plainOffsets.induct) (auto simp: decorated_simps)

lemma plainOffsets_sorted: "sorted (plainOffsets off segs)"
proof (induction off segs rule: plainOffsets.induct)
  case (2 off c segs)
  then show ?case using plainOffsets_ge[of _ "off + 1" segs] by fastforce
qed simp_all

lemma plainOffsets_nth_ge:
  "k \<le> length (plainText segs) \<Longrightarrow> off \<le> plainOffsets off segs ! k"
  using plainOffsets_ge[of "plainOffsets off segs ! k" off segs]
  by (simp add: plainOffsets_length)

lemma plainOffsets_nth_le:
  "k \<le> length (plainText segs) \<Longrightarrow> plainOffsets off segs ! k \<le> off + length (decorated segs)"
  using plainOffsets_le[of "plainOffsets off segs ! k" off segs]
  by (simp add: plainOffsets_length)

lemma plainOffsets_nth_mono:
  "a \<le> b \<Longrightarrow> b \<le> length (plainText segs) \<Longrightarrow>
   plainOffsets off segs ! a \<le> plainOffsets off segs ! b"
  by (rule sorted_nth_mono[OF plainOffsets_sorted]) (simp_all add: plainOffsets_length)

lemma take_length_plus: "take (length xs + n) (xs @ ys) = xs @ take n ys"
  by simp

text \<open>
  Cutting a decorated string at a mapped offset leaves a prefix that strips on its own,
  whatever is appended to it.
\<close>

lemma stripANSI_take_offset_gen:
  "list_all validSeg segs \<Longrightarrow> k \<le> length (plainText segs) \<Longrightarrow>
   stripANSI (take (plainOffsets off segs ! k - off) (decorated segs) @ z) =
   take k (plainText segs) @ stripANSI z"
proof (induction segs arbitrary: off k)
  case Nil
  then show ?case by (simp add: decorated_simps)
next
  case (Cons sg segs)
  show ?case
  proof (cases sg)
    case (Plain c)
    with Cons.prems have c: "c \<noteq> ESC" and v: "list_all validSeg segs" by simp_all
    show ?thesis
    proof (cases k)
      case 0
      with Plain show ?thesis by simp
    next
      case (Suc k')
      with Cons.prems Plain have k': "k' \<le> length (plainText segs)" by simp
      have ge: "off + 1 \<le> plainOffsets (off + 1) segs ! k'"
        using k' by (rule plainOffsets_nth_ge)
      then have "plainOffsets (off + 1) segs ! k' - off =
                 Suc (plainOffsets (off + 1) segs ! k' - (off + 1))"
        by simp
      with Plain Suc c Cons.IH[OF v k', of "off + 1"] show ?thesis
        by (simp add: decorated_simps stripANSI_plain)
    qed
  next
    case (Csi ps l)
    with Cons.prems have p: "list_all isParam ps" and l: "isLetter l"
      and v: "list_all validSeg segs" and k: "k \<le> length (plainText segs)"
      by simp_all
    let ?off' = "off + length ps + 3"
    let ?e = "ESC # CHR ''['' # ps @ [l]"
    define m where "m = plainOffsets ?off' segs ! k - ?off'"
    have ge: "?off' \<le> plainOffsets ?off' segs ! k"
      using k by (rule plainOffsets_nth_ge)
    then have xm: "plainOffsets ?off' segs ! k - off = length ?e + m"
      by (simp add: m_def)
    have "take (length ?e + m) (?e @ decorated segs) = ?e @ take m (decorated segs)"
      by (rule take_length_plus)
    then have tk: "take (plainOffsets ?off' segs ! k - off) (decorated (sg # segs)) =
               ESC # CHR ''['' # ps @ l # take m (decorated segs)"
      unfolding xm using Csi by (simp add: decorated_simps)
    have "stripANSI (take m (decorated segs) @ z) = take k (plainText segs) @ stripANSI z"
      unfolding m_def using v k by (rule Cons.IH)
    then show ?thesis
      unfolding Csi plainOffsets.simps plainText.simps
      using tk stripANSI_csi[OF p l, of "take m (decorated segs) @ z"] Csi by simp
  qed
qed

lemma stripANSI_take_offset:
  "list_all validSeg segs \<Longrightarrow> k \<le> length (plainText segs) \<Longrightarrow>
   stripANSI (take (plainOffsets 0 segs ! k) (decorated segs) @ z) =
   take k (plainText segs) @ stripANSI z"
  using stripANSI_take_offset_gen[of segs k 0 z] by simp

lemma stripANSI_between_offsets:
  assumes v: "list_all validSeg segs" and ab: "a \<le> b" and b: "b \<le> length (plainText segs)"
  shows "stripANSI (take (plainOffsets 0 segs ! b - plainOffsets 0 segs ! a)
                      (drop (plainOffsets 0 segs ! a) (decorated segs))) =
         take (b - a) (drop a (plainText segs))"
proof -
  let ?cm = "plainOffsets 0 segs" and ?s = "decorated segs" and ?p = "plainText segs"
  let ?sl = "take (?cm ! b - ?cm ! a) (drop (?cm ! a) ?s)"
  have le: "?cm ! a \<le> ?cm ! b" using ab b by (rule plainOffsets_nth_mono)
  have a: "a \<le> length ?p" using ab b by simp
  have "take (?cm ! b) ?s = take (?cm ! a + (?cm ! b - ?cm ! a)) ?s" using le by simp
  also have "\<dots> = take (?cm ! a) ?s @ ?sl" by (rule take_add)
  finally have split: "take (?cm ! b) ?s = take (?cm ! a) ?s @ ?sl" .
  have "take b ?p = stripANSI (take (?cm ! b) ?s @ [])"
    using stripANSI_take_offset[OF v b, of "[]"] by simp
  also have "\<dots> = stripANSI (take (?cm ! a) ?s @ ?sl)" using split by simp
  also have "\<dots> = take a ?p @ stripANSI ?sl"
    using stripANSI_take_offset[OF v a, of ?sl] by simp
  finally have "drop a (take b ?p) = drop a (take a ?p @ stripANSI ?sl)" by simp
  also have "\<dots> = stripANSI ?sl" using a by simp
  finally show ?thesis by (simp add: drop_take)
qed

section \<open>The offset mapper on degenerate input\<close>

text \<open>
  Claim C9. \<open>buildCharMap\<close> returns on every input string (no index is read out of
  range, the loops end); on the empty string it returns the sentinel \<open>0\<close> alone; and when
  a decorated string is followed by an unterminated sequence (ESC, \<open>'['\<close>, parameter
  bytes, end of string), the map holds the offsets of the plain characters before it and
  the sentinel \<open>len(s)\<close>: no entry for a byte of the unterminated sequence.
\<close>

theorem buildCharMap_total_on_degenerate_input:
  "(\<exists>cm. buildCharMap s = Inr cm) \<and>
   buildCharMap [] = Inr [0] \<and>
   (list_all validSeg segs \<and> list_all isParam ps \<longrightarrow>
      buildCharMap (decorated segs @ ESC # CHR ''['' # ps) =
        Inr (butlast (plainOffsets 0 segs) @ [length (decorated segs @ ESC # CHR ''['' # ps)]))"
proof (intro conjI impI)
  show "\<exists>cm. buildCharMap s = Inr cm"
    unfolding buildCharMap_def by (rule buildCharMapLoop_total)
  show "buildCharMap [] = Inr [0]"
    unfolding buildCharMap_def by (subst buildCharMapLoop.simps) simp
  assume "list_all validSeg segs \<and> list_all isParam ps"
  then show "buildCharMap (decorated segs @ ESC # CHR ''['' # ps) =
        Inr (butlast (plainOffsets 0 segs) @ [length (decorated segs @ ESC # CHR ''['' # ps)])"
    unfolding buildCharMap_def using loop_decorated_unterminated by blast
qed

theorem buildCharMap_total_on_degenerate_input_witness:
  "(\<exists>cm. buildCharMap [ESC, CHR ''['', CHR ''3''] = Inr cm) \<and>
   buildCharMap [] = Inr [0] \<and>
   buildCharMap (''ab'' @ ESC # CHR ''['' # ''31;1'') = Inr [0, 1, 8]"
  using buildCharMap_total_on_degenerate_input
          [of "[ESC, CHR ''['', CHR ''3'']" "[Plain (CHR ''a''), Plain (CHR ''b'')]" "''31;1''"]
  by (simp add: decorated_def isParam_def less_eq_char_def)

section \<open>Offset-map round trip\<close>

text \<open>
  Claim C1. For a string made of plain characters interleaved with CSI sequences and a
  plain-text range \<open>[a, b)\<close> with \<open>a \<le> b \<le>\<close> the number of plain characters:
  \<open>buildCharMap\<close> returns one entry per plain character and a last entry equal to the
  length of the string; the slice of the string between the mapped offsets of \<open>a\<close> and
  \<open>b\<close> is in bounds, and stripping its escape sequences gives the slice \<open>[a:b]\<close> of the
  stripped string.
\<close>

theorem offset_map_round_trip:
  assumes "list_all validSeg segs" and "a \<le> b" and "b \<le> length (plainText segs)"
  shows "\<exists>cm sl. buildCharMap (decorated segs) = Inr cm \<and>
           length cm = length (plainText segs) + 1 \<and>
           last cm = length (decorated segs) \<and>
           stripANSI (decorated segs) = plainText segs \<and>
           slice (decorated segs) (cm ! a) (cm ! b) = Inr sl \<and>
           slice (stripANSI (decorated segs)) a b = Inr (stripANSI sl)"
proof -
  let ?cm = "plainOffsets 0 segs" and ?s = "decorated segs"
  let ?sl = "take (?cm ! b - ?cm ! a) (drop (?cm ! a) ?s)"
  have 1: "buildCharMap ?s = Inr ?cm" using assms(1) by (rule buildCharMap_decorated)
  have 2: "length ?cm = length (plainText segs) + 1" by (rule plainOffsets_length)
  have 3: "last ?cm = length ?s" by (simp add: plainOffsets_last)
  have 4: "stripANSI ?s = plainText segs" using assms(1) by (rule stripANSI_decorated)
  have "?cm ! a \<le> ?cm ! b" using assms(2,3) by (rule plainOffsets_nth_mono)
  moreover have "?cm ! b \<le> length ?s" using plainOffsets_nth_le[OF assms(3), of 0] by simp
  ultimately have 5: "slice ?s (?cm ! a) (?cm ! b) = Inr ?sl" by (simp add: slice_def)
  have "stripANSI ?sl = take (b - a) (drop a (plainText segs))"
    using assms by (rule stripANSI_between_offsets)
  with assms(2,3) 4 have 6: "slice (stripANSI ?s) a b = Inr (stripANSI ?sl)"
    by (simp add: slice_def)
  from 1 2 3 4 5 6 show ?thesis by blast
qed

theorem offset_map_round_trip_witness:
  "\<exists>cm sl. buildCharMap (decorated jobSegs) = Inr cm \<and>
     length cm = length (plainText jobSegs) + 1 \<and>
     last cm = length (decorated jobSegs) \<and>
     stripANSI (decorated jobSegs) = plainText jobSegs \<and>
     slice (decorated jobSegs) (cm ! 1) (cm ! 3) = Inr sl \<and>
     slice (stripANSI (decorated jobSegs)) 1 3 = Inr (stripANSI sl)"
  by (rule offset_map_round_trip)
     (simp_all add: jobSegs_def isParam_def isLetter_def less_eq_char_def)

section \<open>Highlight injection keeps the text\<close>

lemma boundary_0: "boundary line 0"
  by (simp add: boundary_def)

lemma boundary_offset:
  assumes "list_all validSeg segs" and "k \<le> length (plainText segs)"
  shows "boundary (decorated segs) (plainOffsets 0 segs ! k)"
proof -
  have "stripANSI (take (plainOffsets 0 segs ! k) (decorated segs)) = take k (plainText segs)"
    using stripANSI_take_offset[OF assms, of "[]"] by simp
  moreover have "plainOffsets 0 segs ! k \<le> length (decorated segs)"
    using plainOffsets_nth_le[OF assms(2), of 0] by simp
  ultimately show ?thesis
    using stripANSI_take_offset[OF assms] by (simp add: boundary_def)
qed

lemma stripANSI_bg:
  "stripANSI (bgCurrent @ t) = stripANSI t"
  "stripANSI (bgOther @ t) = stripANSI t"
  "stripANSI (bgReset @ t) = stripANSI t"
  using stripANSI_csi[of "''42''" "CHR ''m''" t] stripANSI_csi[of "''43''" "CHR ''m''" t]
    stripANSI_csi[of "''49''" "CHR ''m''" t]
  by (simp_all add: bgCurrent_def bgOther_def bgReset_def isParam_def isLetter_def less_eq_char_def)

lemma take_then_slice: "lo \<le> hi \<Longrightarrow> take lo xs @ take (hi - lo) (drop lo xs) = take hi xs"
  using take_add[of lo "hi - lo" xs] by simp

lemma wrap_strip:
  assumes bp: "boundary line prev" and bb: "boundary line bs" and be: "boundary line be"
    and le1: "prev \<le> bs" and le2: "bs \<le> be"
    and sb: "\<And>z. stripANSI (sb @ z) = stripANSI (take prev line) @ stripANSI z"
    and code: "\<And>t. stripANSI (code @ t) = stripANSI t"
  shows "stripANSI ((sb @ take (bs - prev) (drop prev line) @ code @
                      take (be - bs) (drop bs line) @ bgReset) @ z) =
         stripANSI (take be line) @ stripANSI z"
proof -
  let ?before = "take (bs - prev) (drop prev line)"
  let ?matched = "take (be - bs) (drop bs line)"
  have cut: "\<And>p z. boundary line p \<Longrightarrow>
              stripANSI (take p line @ z) = stripANSI (take p line) @ stripANSI z"
    by (simp add: boundary_def)
  have "stripANSI ((sb @ ?before @ code @ ?matched @ bgReset) @ z) =
        stripANSI (sb @ (?before @ code @ ?matched @ bgReset @ z))"
    by simp
  also have "\<dots> = stripANSI (take prev line) @ stripANSI (?before @ code @ ?matched @ bgReset @ z)"
    by (rule sb)
  also have "\<dots> = stripANSI (take prev line @ (?before @ code @ ?matched @ bgReset @ z))"
    by (rule cut[OF bp, symmetric])
  also have "take prev line @ (?before @ code @ ?matched @ bgReset @ z) =
             take bs line @ (code @ ?matched @ bgReset @ z)"
    using take_then_slice[OF le1, of line] by (simp flip: append_assoc)
  also have "stripANSI (take bs line @ (code @ ?matched @ bgReset @ z)) =
             stripANSI (take bs line) @ stripANSI (code @ ?matched @ bgReset @ z)"
    by (rule cut[OF bb])
  also have "\<dots> = stripANSI (take bs line) @ stripANSI (?matched @ bgReset @ z)"
    by (simp only: code)
  also have "\<dots> = stripANSI (take bs line @ (?matched @ bgReset @ z))"
    by (rule cut[OF bb, symmetric])
  also have "take bs line @ (?matched @ bgReset @ z) = take be line @ (bgReset @ z)"
    using take_then_slice[OF le2, of line] by (simp flip: append_assoc)
  also have "stripANSI (take be line @ (bgReset @ z)) =
             stripANSI (take be line) @ stripANSI (bgReset @ z)"
    by (rule cut[OF be])
  also have "\<dots> = stripANSI (take be line) @ stripANSI z"
    by (simp only: stripANSI_bg)
  finally show ?thesis .
qed

text \<open>The loop body on a decorated line, written out.\<close>

lemma injectStep_decorated:
  assumes v: "list_all validSeg segs" and r: "0 \<le> start" "start \<le> end0"
    and k: "k < length absIdxs"
  shows "injectStep (decorated segs) (plainOffsets 0 segs) absIdxs cur k (start, end0) (sb, prev) =
     (if length (plainText segs) \<le> nat start then Inr (sb, prev)
      else if plainOffsets 0 segs ! nat start < prev then Inr (sb, prev)
      else Inr (sb @ take (plainOffsets 0 segs ! nat start - prev) (drop prev (decorated segs)) @
                  (if absIdxs ! k = cur then bgCurrent else bgOther) @
                  take (plainOffsets 0 segs ! min (nat end0) (length (plainText segs)) -
                          plainOffsets 0 segs ! nat start)
                       (drop (plainOffsets 0 segs ! nat start) (decorated segs)) @
                  bgReset,
                plainOffsets 0 segs ! min (nat end0) (length (plainText segs))))"
proof (cases "length (plainText segs) \<le> nat start")
  case True
  then have "int (length (plainText segs)) \<le> start" using r by linarith
  with True show ?thesis by (simp add: injectStep_def plainOffsets_length)
next
  case False
  let ?cm = "plainOffsets 0 segs" and ?n = "length (plainText segs)" and ?line = "decorated segs"
  let ?e = "min (nat end0) ?n"
  let ?end = "if end0 \<ge> int (length ?cm) then int (length ?cm) - 1 else end0"
  have len: "length ?cm = ?n + 1" by (rule plainOffsets_length)
  have s1: "\<not> start \<ge> int (length ?cm) - 1" using False r by (simp add: len)
  have n1: "nthE ?cm start = Inr (?cm ! nat start)" using False r by (simp add: nthE_def len)
  have e1: "0 \<le> ?end \<and> ?end < int (length ?cm) \<and> nat ?end = ?e"
    using r by (auto simp: len min_def)
  then have n2: "nthE ?cm ?end = Inr (?cm ! ?e)" by (simp only: nthE_def) simp
  have se: "nat start \<le> ?e" using False r by simp
  have le: "?cm ! nat start \<le> ?cm ! ?e"
    using se by (rule plainOffsets_nth_mono) simp
  have ub: "?cm ! ?e \<le> length ?line"
    using plainOffsets_nth_le[of ?e segs 0] by simp
  have n3: "nthE absIdxs (int k) = Inr (absIdxs ! k)" using k by (simp add: nthE_def)
  show ?thesis
  proof (cases "?cm ! nat start < prev")
    case True
    with False show ?thesis
      unfolding injectStep_def using s1 n1 n2 by (simp del: plainOffsets.simps)
  next
    case nlt: False
    have sl1: "slice ?line prev (?cm ! nat start) =
               Inr (take (?cm ! nat start - prev) (drop prev ?line))"
      using nlt le ub by (simp add: slice_def)
    have sl2: "slice ?line (?cm ! nat start) (?cm ! ?e) =
               Inr (take (?cm ! ?e - ?cm ! nat start) (drop (?cm ! nat start) ?line))"
      using le ub by (simp add: slice_def)
    from False nlt show ?thesis
      unfolding injectStep_def using s1 n1 n2 n3 sl1 sl2 by (simp del: plainOffsets.simps)
  qed
qed

lemma injectStep_inv:
  assumes v: "list_all validSeg segs" and r: "0 \<le> start" "start \<le> end0"
    and k: "k < length absIdxs" and inv: "injInv (decorated segs) st"
  shows "\<exists>st'. injectStep (decorated segs) (plainOffsets 0 segs) absIdxs cur k (start, end0) st = Inr st'
           \<and> injInv (decorated segs) st'"
proof -
  let ?cm = "plainOffsets 0 segs" and ?n = "length (plainText segs)" and ?line = "decorated segs"
  let ?e = "min (nat end0) ?n"
  obtain sb prev where st: "st = (sb, prev)" by (cases st)
  note step = injectStep_decorated[OF v r k, of cur sb prev]
  show ?thesis
  proof (cases "?n \<le> nat start \<or> ?cm ! nat start < prev")
    case True
    then have "injectStep ?line ?cm absIdxs cur k (start, end0) st = Inr st"
      using step st by auto
    with inv show ?thesis by simp
  next
    case False
    then have lt: "nat start < ?n" and ge: "prev \<le> ?cm ! nat start" by simp_all
    let ?code = "if absIdxs ! k = cur then bgCurrent else bgOther"
    let ?sb' = "sb @ take (?cm ! nat start - prev) (drop prev ?line) @ ?code @
                  take (?cm ! ?e - ?cm ! nat start) (drop (?cm ! nat start) ?line) @ bgReset"
    have res: "injectStep ?line ?cm absIdxs cur k (start, end0) st = Inr (?sb', ?cm ! ?e)"
      using step st False by simp
    have bp: "boundary ?line prev" using inv st by (simp add: injInv_def)
    have sbz: "\<And>z. stripANSI (sb @ z) = stripANSI (take prev ?line) @ stripANSI z"
      using inv st by (simp add: injInv_def)
    have bb: "boundary ?line (?cm ! nat start)"
      using v lt by (intro boundary_offset) simp_all
    have be: "boundary ?line (?cm ! ?e)"
      using v by (intro boundary_offset) simp_all
    have se: "nat start \<le> ?e" using lt r by simp
    have le: "?cm ! nat start \<le> ?cm ! ?e"
      using se by (rule plainOffsets_nth_mono) simp
    have code: "\<And>t. stripANSI (?code @ t) = stripANSI t"
      by (simp add: stripANSI_bg)
    have "\<And>z. stripANSI (?sb' @ z) = stripANSI (take (?cm ! ?e) ?line) @ stripANSI z"
      using wrap_strip[OF bp bb be ge le sbz code] by simp
    with be have "injInv ?line (?sb', ?cm ! ?e)" by (simp add: injInv_def)
    with res show ?thesis by blast
  qed
qed

lemma injectLoop_inv:
  assumes v: "list_all validSeg segs"
  shows "list_all (\<lambda>(start, end0). 0 \<le> start \<and> start \<le> end0) ranges \<Longrightarrow>
         k + length ranges \<le> length absIdxs \<Longrightarrow> injInv (decorated segs) st \<Longrightarrow>
         \<exists>st'. injectLoop (decorated segs) (plainOffsets 0 segs) absIdxs cur ranges k st = Inr st'
           \<and> injInv (decorated segs) st'"
proof (induction ranges arbitrary: k st)
  case Nil
  then show ?case by simp
next
  case (Cons r ranges)
  obtain start end0 where r: "r = (start, end0)" by (cases r)
  with Cons.prems have ok: "0 \<le> start" "start \<le> end0" and k: "k < length absIdxs" by simp_all
  obtain st1 where s1: "injectStep (decorated segs) (plainOffsets 0 segs) absIdxs cur k (start, end0) st = Inr st1"
    and i1: "injInv (decorated segs) st1"
    using injectStep_inv[OF v ok k Cons.prems(3)] by blast
  have "\<exists>st'. injectLoop (decorated segs) (plainOffsets 0 segs) absIdxs cur ranges (k + 1) st1 = Inr st'
           \<and> injInv (decorated segs) st'"
    using Cons.prems i1 by (intro Cons.IH) simp_all
  with s1 r show ?case by simp
qed

lemma injInv_finish:
  assumes "injInv line (sb, prev)"
  shows "slice line prev (length line) = Inr (drop prev line) \<and>
         stripANSI (sb @ drop prev line) = stripANSI line"
proof -
  from assms have b: "boundary line prev"
    and sb: "stripANSI (sb @ drop prev line) = stripANSI (take prev line) @ stripANSI (drop prev line)"
    by (simp_all add: injInv_def)
  from b have "stripANSI (take prev line @ drop prev line) =
               stripANSI (take prev line) @ stripANSI (drop prev line)"
    unfolding boundary_def by blast
  with sb have "stripANSI (sb @ drop prev line) = stripANSI line" by simp
  moreover from b have "slice line prev (length line) = Inr (drop prev line)"
    by (simp add: boundary_def slice_def)
  ultimately show ?thesis by simp
qed

lemma injectBgHighlights_strip:
  assumes v: "list_all validSeg segs"
    and r: "list_all (\<lambda>(start, end0). 0 \<le> start \<and> start \<le> end0) ranges"
    and a: "length ranges \<le> length absIdxs"
  shows "\<exists>out. injectBgHighlights (decorated segs) ranges absIdxs cur = Inr out \<and>
           stripANSI out = stripANSI (decorated segs)"
proof (cases "ranges = []")
  case True
  then show ?thesis by (simp add: injectBgHighlights_def)
next
  case False
  have "injInv (decorated segs) ([], 0)" by (simp add: injInv_def boundary_0)
  then obtain sb prev where
    loop: "injectLoop (decorated segs) (plainOffsets 0 segs) absIdxs cur ranges 0 ([], 0) = Inr (sb, prev)"
    and inv: "injInv (decorated segs) (sb, prev)"
    using injectLoop_inv[OF v r, of 0 absIdxs "([], 0)" cur] a by auto
  from injInv_finish[OF inv] False loop show ?thesis
    by (simp add: injectBgHighlights_def buildCharMap_decorated[OF v])
qed

lemma injectLoop_spans:
  assumes v: "list_all validSeg segs"
  shows "list_all (\<lambda>(start, end0). 0 \<le> start \<and> start \<le> end0) ranges \<Longrightarrow>
         k + length ranges \<le> length absIdxs \<Longrightarrow>
         \<exists>sb' prev'. injectLoop (decorated segs) (plainOffsets 0 segs) absIdxs cur ranges k (sb, prev) =
                        Inr (sb', prev') \<and>
           sb' @ drop prev' (decorated segs) =
             sb @ wrapSpans (decorated segs) cur prev
                    (keptSpans (plainOffsets 0 segs) absIdxs k prev ranges)"
proof (induction ranges arbitrary: k sb prev)
  case Nil
  then show ?case by simp
next
  case (Cons r ranges)
  let ?cm = "plainOffsets 0 segs" and ?n = "length (plainText segs)" and ?line = "decorated segs"
  obtain start end0 where r: "r = (start, end0)" by (cases r)
  with Cons.prems have ok: "0 \<le> start" "start \<le> end0" and k: "k < length absIdxs"
    and rest: "list_all (\<lambda>(start, end0). 0 \<le> start \<and> start \<le> end0) ranges"
    and kr: "(k + 1) + length ranges \<le> length absIdxs"
    by simp_all
  note step = injectStep_decorated[OF v ok k, of cur sb prev]
  have len: "length ?cm - 1 = ?n" by (simp add: plainOffsets_length)
  let ?e = "min (nat end0) ?n"
  show ?case
  proof (cases "?n \<le> nat start \<or> ?cm ! nat start < prev")
    case True
    then have s: "injectStep ?line ?cm absIdxs cur k (start, end0) (sb, prev) = Inr (sb, prev)"
      using step by auto
    from True have ks: "keptSpans ?cm absIdxs k prev ((start, end0) # ranges) =
                        keptSpans ?cm absIdxs (k + 1) prev ranges"
      using len by (auto simp del: plainOffsets.simps)
    from Cons.IH[OF rest kr, of sb prev] s show ?thesis
      unfolding r by (simp add: ks del: keptSpans.simps plainOffsets.simps)
  next
    case False
    let ?code = "if absIdxs ! k = cur then bgCurrent else bgOther"
    let ?add = "take (?cm ! nat start - prev) (drop prev ?line) @ ?code @
                  take (?cm ! ?e - ?cm ! nat start) (drop (?cm ! nat start) ?line) @ bgReset"
    have s: "injectStep ?line ?cm absIdxs cur k (start, end0) (sb, prev) = Inr (sb @ ?add, ?cm ! ?e)"
      using step False by simp
    from False have ks: "keptSpans ?cm absIdxs k prev ((start, end0) # ranges) =
        (?cm ! nat start, ?cm ! ?e, absIdxs ! k) # keptSpans ?cm absIdxs (k + 1) (?cm ! ?e) ranges"
      using len by (simp del: plainOffsets.simps)
    from Cons.IH[OF rest kr, of "sb @ ?add" "?cm ! ?e"] s show ?thesis
      unfolding r by (simp add: ks del: keptSpans.simps plainOffsets.simps)
  qed
qed

lemma injectBgHighlights_spans:
  assumes v: "list_all validSeg segs"
    and r: "list_all (\<lambda>(start, end0). 0 \<le> start \<and> start \<le> end0) ranges"
    and a: "length ranges \<le> length absIdxs"
  shows "injectBgHighlights (decorated segs) ranges absIdxs cur =
           Inr (wrapSpans (decorated segs) cur 0 (keptSpans (plainOffsets 0 segs) absIdxs 0 0 ranges))"
proof (cases "ranges = []")
  case True
  then show ?thesis by (simp add: injectBgHighlights_def)
next
  case False
  have "injInv (decorated segs) ([], 0)" by (simp add: injInv_def boundary_0)
  then obtain sb prev where
    loop: "injectLoop (decorated segs) (plainOffsets 0 segs) absIdxs cur ranges 0 ([], 0) = Inr (sb, prev)"
    and inv: "injInv (decorated segs) (sb, prev)"
    using injectLoop_inv[OF v r, of 0 absIdxs "([], 0)" cur] a by auto
  from injectLoop_spans[OF v r, of 0 absIdxs cur "[]" 0] a loop
  have eq: "sb @ drop prev (decorated segs) =
            wrapSpans (decorated segs) cur 0 (keptSpans (plainOffsets 0 segs) absIdxs 0 0 ranges)"
    by simp
  from injInv_finish[OF inv] False loop eq show ?thesis
    by (simp add: injectBgHighlights_def buildCharMap_decorated[OF v])
qed

text \<open>
  Claim C2. On a decorated line, with ranges \<open>0 \<le> start \<le> end\<close> in plain-text
  coordinates and an absolute index for each range, \<open>injectBgHighlights\<close> returns
  exactly the output the specification describes: the line's bytes between the kept
  spans unchanged, every kept span between a background start code and the background
  reset code, a range skipped when its mapped start lies before the end of the span kept
  last (or outside the text). That output stripped of escape sequences is the line
  stripped of escape sequences.
\<close>

theorem highlight_injection_keeps_text:
  assumes "list_all validSeg segs"
    and "list_all (\<lambda>(start, end0). 0 \<le> start \<and> start \<le> end0) ranges"
    and "length ranges \<le> length absIdxs"
  shows "injectBgHighlights (decorated segs) ranges absIdxs currentIdx =
           Inr (wrapSpans (decorated segs) currentIdx 0
                  (keptSpans (plainOffsets 0 segs) absIdxs 0 0 ranges)) \<and>
         stripANSI (wrapSpans (decorated segs) currentIdx 0
                      (keptSpans (plainOffsets 0 segs) absIdxs 0 0 ranges)) =
           stripANSI (decorated segs)"
proof -
  note s = injectBgHighlights_spans[OF assms, of currentIdx]
  from injectBgHighlights_strip[OF assms, of currentIdx] s
  have "stripANSI (wrapSpans (decorated segs) currentIdx 0
                      (keptSpans (plainOffsets 0 segs) absIdxs 0 0 ranges)) =
           stripANSI (decorated segs)"
    by auto
  with s show ?thesis by (rule conjI)
qed

theorem highlight_injection_keeps_text_witness:
  "injectBgHighlights (decorated jobSegs) [(0, 2), (1, 3), (2, 3)] [0, 1, 2] 2 =
     Inr (ESC # ''[31m'' @ bgOther @ ''Jo'' @ ESC # ''[0m'' @ bgReset @ bgCurrent @ ''b'' @ bgReset) \<and>
   stripANSI (ESC # ''[31m'' @ bgOther @ ''Jo'' @ ESC # ''[0m'' @ bgReset @ bgCurrent @ ''b'' @ bgReset) =
     ''Job''"
proof -
  have v: "list_all validSeg jobSegs"
    by (simp add: jobSegs_def isParam_def isLetter_def less_eq_char_def)
  have r: "list_all (\<lambda>(start, end0). 0 \<le> start \<and> start \<le> end0) [(0, 2), (1, 3), (2::int, 3::int)]"
    by simp
  have a: "length [(0, 2), (1, 3), (2::int, 3::int)] \<le> length [0, 1, 2::int]"
    by simp
  have w: "wrapSpans (decorated jobSegs) 2 0
             (keptSpans (plainOffsets 0 jobSegs) [0, 1, 2] 0 0 [(0, 2), (1, 3), (2, 3)]) =
           ESC # ''[31m'' @ bgOther @ ''Jo'' @ ESC # ''[0m'' @ bgReset @ bgCurrent @ ''b'' @ bgReset"
    by (simp add: jobSegs_def decorated_def)
  have d: "stripANSI (decorated jobSegs) = ''Job''"
    using stripANSI_decorated[OF v] by (simp add: jobSegs_def)
  from highlight_injection_keeps_text[OF v r a, of 2] show ?thesis
    unfolding w d .
qed
section \<open>Search match production\<close>


lemma strIndex_Some:
  "strIndex s sub = Some i \<Longrightarrow>
     i \<le> length s \<and> prefix sub (drop i s) \<and> (\<forall>j<i. \<not> prefix sub (drop j s))"
proof (induction s arbitrary: i)
  case Nil
  then show ?case by (auto split: if_splits)
next
  case (Cons c cs)
  show ?case
  proof (cases "prefix sub (c # cs)")
    case True
    with Cons.prems show ?thesis by simp
  next
    case False
    with Cons.prems obtain i' where i': "strIndex cs sub = Some i'" and i: "i = Suc i'"
      by auto
    from Cons.IH[OF i'] have ih: "i' \<le> length cs" "prefix sub (drop i' cs)"
      "\<forall>j<i'. \<not> prefix sub (drop j cs)" by simp_all
    have "\<forall>j<i. \<not> prefix sub (drop j (c # cs))"
    proof (intro allI impI)
      fix j assume "j < i"
      show "\<not> prefix sub (drop j (c # cs))"
      proof (cases j)
        case 0
        with False show ?thesis by simp
      next
        case (Suc j')
        with \<open>j < i\<close> i ih(3) show ?thesis by simp
      qed
    qed
    with ih i show ?thesis by simp
  qed
qed

lemma strIndex_None:
  "strIndex s sub = None \<Longrightarrow> j \<le> length s \<Longrightarrow> \<not> prefix sub (drop j s)"
proof (induction s arbitrary: j)
  case Nil
  then show ?case by (auto split: if_splits)
next
  case (Cons c cs)
  from Cons.prems(1) have np: "\<not> prefix sub (c # cs)" and n: "strIndex cs sub = None"
    by (auto split: if_splits)
  show ?case
  proof (cases j)
    case 0
    with np show ?thesis by simp
  next
    case (Suc j')
    with Cons.prems(2) Cons.IH[OF n, of j'] show ?thesis by simp
  qed
qed

lemma scanLine_spec:
  shows "0 < qlen \<Longrightarrow> qlen \<le> length lower \<Longrightarrow> pos \<le> length lplain \<Longrightarrow>
         \<exists>ms. scanLine lplain lower qlen lineIdx pos acc = Inr (acc @ ms) \<and>
              list_all (lineMatch lplain lower qlen lineIdx pos) ms \<and>
              sorted_wrt (\<lambda>a b. smEnd a \<le> smStart b) ms \<and>
              (\<forall>p. pos \<le> p \<and> p \<le> length lplain \<and> prefix lower (drop p lplain) \<longrightarrow>
                   (\<exists>sm\<in>set ms. smStart sm \<le> int p \<and> int p < smEnd sm))"
proof (induction lplain lower qlen lineIdx pos acc rule: scanLine.induct)
  case (1 lplain lower qlen lineIdx pos acc)
  note q = "1.prems"(1,2)
  have sl: "slice lplain pos (length lplain) = Inr (drop pos lplain)"
    using "1.prems" by (simp add: slice_def)
  show ?case
  proof (cases "strIndex (drop pos lplain) lower")
    case None
    have "\<forall>p. pos \<le> p \<and> p \<le> length lplain \<and> prefix lower (drop p lplain) \<longrightarrow> False"
    proof (intro allI impI)
      fix p assume p: "pos \<le> p \<and> p \<le> length lplain \<and> prefix lower (drop p lplain)"
      then have "p - pos \<le> length (drop pos lplain)" by auto
      from strIndex_None[OF None this] p show False by simp
    qed
    with None sl show ?thesis
      by (subst scanLine.simps) simp
  next
    case (Some idx)
    from strIndex_Some[OF Some] have idx: "idx \<le> length lplain - pos"
      and occ: "prefix lower (drop (pos + idx) lplain)"
      and least: "\<forall>j<idx. \<not> prefix lower (drop (pos + j) lplain)"
      by (simp_all add: add.commute)
    let ?abs = "pos + idx"
    let ?sm = "\<lparr>smLine = int lineIdx, smStart = int ?abs, smEnd = int (?abs + qlen)\<rparr>"
    from occ have "length lower \<le> length lplain - ?abs"
      using prefix_length_le by fastforce
    with q(2) idx "1.prems" have pos': "?abs + qlen \<le> length lplain" using q(1) by arith
    from "1.IH"[OF sl Some _ q(1) q(2) pos'] q(1)
    obtain ms where rec: "scanLine lplain lower qlen lineIdx (?abs + qlen) (acc @ [?sm]) = Inr ((acc @ [?sm]) @ ms)"
      and all: "list_all (lineMatch lplain lower qlen lineIdx (?abs + qlen)) ms"
      and srt: "sorted_wrt (\<lambda>a b. smEnd a \<le> smStart b) ms"
      and cov: "\<forall>p. ?abs + qlen \<le> p \<and> p \<le> length lplain \<and> prefix lower (drop p lplain) \<longrightarrow>
                   (\<exists>sm\<in>set ms. smStart sm \<le> int p \<and> int p < smEnd sm)"
      by auto
    have res: "scanLine lplain lower qlen lineIdx pos acc = Inr (acc @ ?sm # ms)"
      using sl Some q(1) rec by (subst scanLine.simps) simp
    have m0: "lineMatch lplain lower qlen lineIdx pos ?sm"
      using occ by (simp add: lineMatch_def nat_int_add)
    have all': "list_all (lineMatch lplain lower qlen lineIdx pos) ms"
      using all by (auto simp: list_all_iff lineMatch_def)
    have srt': "sorted_wrt (\<lambda>a b. smEnd a \<le> smStart b) (?sm # ms)"
      using srt all by (auto simp: list_all_iff lineMatch_def)
    have cov': "\<forall>p. pos \<le> p \<and> p \<le> length lplain \<and> prefix lower (drop p lplain) \<longrightarrow>
                   (\<exists>sm\<in>set (?sm # ms). smStart sm \<le> int p \<and> int p < smEnd sm)"
    proof (intro allI impI)
      fix p assume p: "pos \<le> p \<and> p \<le> length lplain \<and> prefix lower (drop p lplain)"
      have ge: "?abs \<le> p"
      proof (rule ccontr)
        assume "\<not> ?abs \<le> p"
        then have "p - pos < idx" using p by auto
        with least have "\<not> prefix lower (drop (pos + (p - pos)) lplain)" by blast
        with p show False by simp
      qed
      show "\<exists>sm\<in>set (?sm # ms). smStart sm \<le> int p \<and> int p < smEnd sm"
      proof (cases "p < ?abs + qlen")
        case True
        with ge show ?thesis by simp
      next
        case False
        with p cov have "\<exists>sm\<in>set ms. smStart sm \<le> int p \<and> int p < smEnd sm" by simp
        then show ?thesis by auto
      qed
    qed
    from res m0 all' srt' cov' show ?thesis by (intro exI[of _ "?sm # ms"]) simp
  qed
qed


lemma scanLines_spec:
  "0 < qlen \<Longrightarrow> qlen \<le> length lower \<Longrightarrow>
   \<exists>ms. scanLines low lower qlen lines li acc = Inr (acc @ ms) \<and>
        list_all (docMatch low lower qlen li lines) ms \<and>
        sorted_wrt before ms \<and>
        (\<forall>k p. k < length lines \<and> p \<le> length (low (stripANSI (lines ! k))) \<and>
               prefix lower (drop p (low (stripANSI (lines ! k)))) \<longrightarrow>
               (\<exists>sm\<in>set ms. smLine sm = int (li + k) \<and> smStart sm \<le> int p \<and> int p < smEnd sm))"
proof (induction lines arbitrary: li acc)
  case Nil
  then show ?case by simp
next
  case (Cons l lines)
  let ?lp = "low (stripANSI l)"
  obtain ms1 where s1: "scanLine ?lp lower qlen li 0 acc = Inr (acc @ ms1)"
    and a1: "list_all (lineMatch ?lp lower qlen li 0) ms1"
    and o1: "sorted_wrt (\<lambda>a b. smEnd a \<le> smStart b) ms1"
    and c1: "\<forall>p. 0 \<le> p \<and> p \<le> length ?lp \<and> prefix lower (drop p ?lp) \<longrightarrow>
                   (\<exists>sm\<in>set ms1. smStart sm \<le> int p \<and> int p < smEnd sm)"
    using scanLine_spec[OF Cons.prems, of 0 ?lp li acc] by auto
  obtain ms2 where s2: "scanLines low lower qlen lines (li + 1) (acc @ ms1) = Inr ((acc @ ms1) @ ms2)"
    and a2: "list_all (docMatch low lower qlen (li + 1) lines) ms2"
    and o2: "sorted_wrt before ms2"
    and c2: "\<forall>k p. k < length lines \<and> p \<le> length (low (stripANSI (lines ! k))) \<and>
               prefix lower (drop p (low (stripANSI (lines ! k)))) \<longrightarrow>
               (\<exists>sm\<in>set ms2. smLine sm = int (li + 1 + k) \<and> smStart sm \<le> int p \<and> int p < smEnd sm)"
    using Cons.IH[OF Cons.prems, of "li + 1" "acc @ ms1"] by auto
  have res: "scanLines low lower qlen (l # lines) li acc = Inr (acc @ ms1 @ ms2)"
    using s1 s2 by simp
  have l1: "\<And>sm. sm \<in> set ms1 \<Longrightarrow> smLine sm = int li"
    using a1 by (auto simp: list_all_iff lineMatch_def)
  have d1: "\<And>sm. sm \<in> set ms1 \<Longrightarrow> docMatch low lower qlen li (l # lines) sm"
    using a1 by (auto simp: list_all_iff lineMatch_def docMatch_def)
  have d2: "\<And>sm. sm \<in> set ms2 \<Longrightarrow> docMatch low lower qlen li (l # lines) sm"
  proof -
    fix sm assume "sm \<in> set ms2"
    with a2 have d: "docMatch low lower qlen (li + 1) lines sm" by (simp add: list_all_iff)
    then have "nat (smLine sm) - li = Suc (nat (smLine sm) - (li + 1))"
      by (auto simp: docMatch_def)
    with d show "docMatch low lower qlen li (l # lines) sm"
      by (auto simp: docMatch_def)
  qed
  have l2: "\<And>sm. sm \<in> set ms2 \<Longrightarrow> int li < smLine sm"
    using a2 by (auto simp: list_all_iff docMatch_def)
  have all: "list_all (docMatch low lower qlen li (l # lines)) (ms1 @ ms2)"
    using d1 d2 by (auto simp: list_all_iff)
  have "sorted_wrt before ms1"
    using o1 l1 by (auto simp: sorted_wrt_iff_nth_less before_def)
  then have srt: "sorted_wrt before (ms1 @ ms2)"
    using o2 l1 l2 by (auto simp: sorted_wrt_append before_def)
  have cov: "\<forall>k p. k < length (l # lines) \<and> p \<le> length (low (stripANSI ((l # lines) ! k))) \<and>
               prefix lower (drop p (low (stripANSI ((l # lines) ! k)))) \<longrightarrow>
               (\<exists>sm\<in>set (ms1 @ ms2). smLine sm = int (li + k) \<and> smStart sm \<le> int p \<and> int p < smEnd sm)"
  proof (intro allI impI)
    fix k p
    assume h: "k < length (l # lines) \<and> p \<le> length (low (stripANSI ((l # lines) ! k))) \<and>
               prefix lower (drop p (low (stripANSI ((l # lines) ! k))))"
    show "\<exists>sm\<in>set (ms1 @ ms2). smLine sm = int (li + k) \<and> smStart sm \<le> int p \<and> int p < smEnd sm"
    proof (cases k)
      case 0
      with h c1 obtain sm where "sm \<in> set ms1" "smStart sm \<le> int p" "int p < smEnd sm"
        by auto
      with l1 0 show ?thesis by auto
    next
      case (Suc k')
      with h c2 obtain sm where "sm \<in> set ms2" "smLine sm = int (li + 1 + k')"
        "smStart sm \<le> int p" "int p < smEnd sm"
        by auto
      with Suc show ?thesis by auto
    qed
  qed
  from res all srt cov show ?case by (intro exI[of _ "ms1 @ ms2"]) simp
qed


lemma skipParams_le: "j \<le> length s \<Longrightarrow> skipParams s j = Inr k \<Longrightarrow> k \<le> length s"
proof (induction s j rule: skipParams.induct)
  case (1 s j)
  show ?case
  proof (cases "j < length s \<and> isParam (s ! j)")
    case True
    with "1.prems" have "skipParams s (j + 1) = Inr k"
      by (subst (asm) skipParams.simps) (simp add: byteAt_def)
    with True "1.IH"[of "s ! j"] show ?thesis
      by (simp add: byteAt_def)
  next
    case False
    with "1.prems" have "k = j"
      by (subst (asm) skipParams.simps) (auto simp: byteAt_def split: if_splits)
    with "1.prems" show ?thesis by simp
  qed
qed

lemma csiStartAt_True: "csiStartAt s i = Inr True \<Longrightarrow> i + 1 < length s"
  by (auto simp: csiStartAt_def byteAt_def split: if_splits)

text \<open>On any string the map is not empty, increasing and within the string.\<close>

lemma buildCharMapLoop_shape:
  "i \<le> length s \<Longrightarrow> buildCharMapLoop s i acc = Inr r \<Longrightarrow>
   \<exists>ys. r = acc @ ys \<and> ys \<noteq> [] \<and> sorted ys \<and> (\<forall>y\<in>set ys. i \<le> y \<and> y \<le> length s)"
proof (induction s i acc arbitrary: r rule: buildCharMapLoop.induct)
  case (1 s i acc)
  show ?case
  proof (cases "i < length s")
    case False
    with "1.prems" have "r = acc @ [i]"
      by (subst (asm) buildCharMapLoop.simps) simp
    with "1.prems" show ?thesis by simp
  next
    case True
    then obtain b where b: "csiStartAt s i = Inr b"
      using csiStartAt_total by blast
    show ?thesis
    proof (cases b)
      case False
      with True b "1.prems" have run: "buildCharMapLoop s (i + 1) (acc @ [i]) = Inr r"
        by (subst (asm) buildCharMapLoop.simps) simp
      from False have bf: "b = False" by simp
      from "1.IH"(2)[OF True b bf _ run] True
      obtain ys where "r = (acc @ [i]) @ ys" "sorted ys" "\<forall>y\<in>set ys. i + 1 \<le> y \<and> y \<le> length s"
        by auto
      then show ?thesis
        using True by (intro exI[of _ "i # ys"]) auto
    next
      case bt: True
      obtain j where j: "skipParams s (i + 2) = Inr j"
        using skipParams_total by blast
      from b bt have i2: "i + 2 \<le> length s" using csiStartAt_True by fastforce
      have jl: "j \<le> length s" using skipParams_le[OF i2 j] .
      have jg: "i + 2 \<le> j" using skipParams_ge[OF j] .
      let ?i' = "if j < length s then j + 1 else j"
      from True b bt j "1.prems" have run: "buildCharMapLoop s ?i' acc = Inr r"
        by (subst (asm) buildCharMapLoop.simps) simp
      have il: "?i' \<le> length s" using jl by simp
      from bt have btt: "b = True" by simp
      from "1.IH"(1)[OF True b btt j il run]
      obtain ys where "r = acc @ ys" "ys \<noteq> []" "sorted ys" "\<forall>y\<in>set ys. ?i' \<le> y \<and> y \<le> length s"
        by auto
      then show ?thesis
        using jg by (intro exI[of _ ys]) (auto split: if_splits)
    qed
  qed
qed

lemma buildCharMap_shape:
  "\<exists>cm. buildCharMap s = Inr cm \<and> cm \<noteq> [] \<and> sorted cm \<and> (\<forall>y\<in>set cm. y \<le> length s)"
proof -
  obtain cm where cm: "buildCharMapLoop s 0 [] = Inr cm"
    using buildCharMapLoop_total by blast
  from buildCharMapLoop_shape[OF _ cm] show ?thesis
    using cm by (auto simp: buildCharMap_def)
qed

lemma injectStep_total:
  assumes cm: "cm \<noteq> []" "sorted cm" "\<forall>y\<in>set cm. y \<le> length line"
    and r: "validRange r" and k: "k < length absIdxs" and p: "snd st \<le> length line"
  shows "\<exists>st'. injectStep line cm absIdxs cur k r st = Inr st' \<and> snd st' \<le> length line"
proof -
  obtain start end0 where rr: "r = (start, end0)" by (cases r)
  obtain sb prev where st: "st = (sb, prev)" by (cases st)
  from r rr have s0: "0 \<le> start" and se: "start \<le> end0" by (simp_all add: validRange_def)
  show ?thesis
  proof (cases "start \<ge> int (length cm) - 1")
    case True
    with p rr st show ?thesis by (simp add: injectStep_def)
  next
    case False
    let ?end = "if end0 \<ge> int (length cm) then int (length cm) - 1 else end0"
    have sl: "nat start < length cm" using False s0 by linarith
    have el: "0 \<le> ?end \<and> nat ?end < length cm \<and> nat start \<le> nat ?end"
      using False s0 se cm(1) by auto
    have n1: "nthE cm start = Inr (cm ! nat start)" using sl s0 by (simp add: nthE_def)
    have n2: "nthE cm ?end = Inr (cm ! nat ?end)" using el by (simp only: nthE_def) auto
    have le: "cm ! nat start \<le> cm ! nat ?end"
      using el cm(2) by (intro sorted_nth_mono) simp_all
    have ub: "cm ! nat ?end \<le> length line" using el cm(3) by (meson nth_mem)
    have n3: "nthE absIdxs (int k) = Inr (absIdxs ! k)" using k by (simp add: nthE_def)
    show ?thesis
    proof (cases "cm ! nat start < prev")
      case True
      with False n1 n2 p rr st show ?thesis
        unfolding injectStep_def by simp
    next
      case nlt: False
      have sl1: "\<exists>x. slice line prev (cm ! nat start) = Inr x"
        using nlt le ub by (simp add: slice_def)
      have sl2: "\<exists>x. slice line (cm ! nat start) (cm ! nat ?end) = Inr x"
        using le ub by (simp add: slice_def)
      from sl1 sl2 False nlt n1 n2 n3 ub rr st show ?thesis
        unfolding injectStep_def by auto
    qed
  qed
qed

lemma injectLoop_total:
  assumes cm: "cm \<noteq> []" "sorted cm" "\<forall>y\<in>set cm. y \<le> length line"
  shows "list_all validRange ranges \<Longrightarrow> k + length ranges \<le> length absIdxs \<Longrightarrow>
         snd st \<le> length line \<Longrightarrow>
         \<exists>st'. injectLoop line cm absIdxs cur ranges k st = Inr st' \<and> snd st' \<le> length line"
proof (induction ranges arbitrary: k st)
  case Nil
  then show ?case by simp
next
  case (Cons r ranges)
  from Cons.prems have r: "validRange r" and k: "k < length absIdxs" by simp_all
  obtain st1 where s1: "injectStep line cm absIdxs cur k r st = Inr st1" and p1: "snd st1 \<le> length line"
    using injectStep_total[OF cm r k Cons.prems(3)] by blast
  have "\<exists>st'. injectLoop line cm absIdxs cur ranges (k + 1) st1 = Inr st' \<and> snd st' \<le> length line"
    using Cons.prems p1 by (intro Cons.IH) simp_all
  with s1 show ?case by simp
qed

lemma injectBgHighlights_total:
  assumes "list_all validRange ranges" and "length ranges \<le> length absIdxs"
  shows "\<exists>out. injectBgHighlights line ranges absIdxs cur = Inr out"
proof -
  obtain cm where cm: "buildCharMap line = Inr cm" "cm \<noteq> []" "sorted cm" "\<forall>y\<in>set cm. y \<le> length line"
    using buildCharMap_shape by blast
  obtain st' where l: "injectLoop line cm absIdxs cur ranges 0 ([], 0) = Inr st'"
    and p: "snd st' \<le> length line"
    using injectLoop_total[OF cm(2,3,4) assms(1), of 0 absIdxs "([], 0)" cur] assms(2) by auto
  obtain sb prev where st: "st' = (sb, prev)" by (cases st')
  with p have "\<exists>x. slice line prev (length line) = Inr x" by (simp add: slice_def)
  with cm(1) l st show ?thesis by (auto simp: injectBgHighlights_def)
qed


lemma addToGroup_inv:
  "groupInv byLine \<Longrightarrow> validRange (smStart sm, smEnd sm) \<Longrightarrow> groupInv (addToGroup byLine (k, sm))"
  by (auto simp: groupInv_def addToGroup_def Let_def split: option.splits)

lemma foldl_addToGroup_inv:
  "groupInv byLine \<Longrightarrow> \<forall>p\<in>set ps. validRange (smStart (snd p), smEnd (snd p)) \<Longrightarrow>
   groupInv (foldl addToGroup byLine ps)"
proof (induction ps arbitrary: byLine)
  case Nil
  then show ?case by simp
next
  case (Cons p ps)
  obtain k sm where p: "p = (k, sm)" by (cases p)
  with Cons.prems have "groupInv (addToGroup byLine p)"
    using addToGroup_inv[of byLine sm k] by simp
  with Cons show ?case by simp
qed

lemma groupByLine_inv:
  assumes "\<forall>sm\<in>set ms. validRange (smStart sm, smEnd sm)"
  shows "groupInv (groupByLine ms)"
proof -
  have "\<forall>p\<in>set (enumerate 0 ms). validRange (smStart (snd p), smEnd (snd p))"
    using assms by (auto simp: in_set_enumerate_eq)
  moreover have "groupInv Map.empty" by (simp add: groupInv_def)
  ultimately show ?thesis
    unfolding groupByLine_def by (intro foldl_addToGroup_inv)
qed

lemma highlightLines_total:
  "groupInv byLine \<Longrightarrow> \<exists>rs. highlightLines byLine cur ls i = Inr rs"
proof (induction ls arbitrary: i)
  case Nil
  show ?case by simp
next
  case (Cons l ls)
  obtain rs where rs: "highlightLines byLine cur ls (i + 1) = Inr rs"
    using Cons by blast
  show ?case
  proof (cases "byLine (int i)")
    case None
    with rs show ?thesis by simp
  next
    case (Some lg)
    with Cons.prems have "list_all validRange (lgRanges lg)" "length (lgRanges lg) \<le> length (lgAbsIdxs lg)"
      by (auto simp: groupInv_def)
    then obtain out where "injectBgHighlights l (lgRanges lg) (lgAbsIdxs lg) cur = Inr out"
      using injectBgHighlights_total by blast
    with Some rs show ?thesis by simp
  qed
qed

lemma docMatch_validRange:
  "docMatch low lower qlen li lines sm \<Longrightarrow> validRange (smStart sm, smEnd sm)"
  by (simp add: docMatch_def validRange_def)

lemma highlight_and_scroll:
  assumes inv: "groupInv (groupByLine (searchMatches m2))"
    and c: "0 \<le> searchCurrent m2"
      "searchMatches m2 \<noteq> [] \<longrightarrow> searchCurrent m2 < int (length (searchMatches m2))"
  shows "\<exists>vp. bindE (applySearchHighlights L m2 lines)
                 (\<lambda>m3. if length (searchMatches m3) > 0 then scrollToMatch L m3 (searchCurrent m3)
                       else Inr m3) = Inr (m2\<lparr>viewport := vp\<rparr>)"
proof -
  obtain rs where rs: "highlightLines (groupByLine (searchMatches m2)) (searchCurrent m2) lines 0 = Inr rs"
    using highlightLines_total[OF inv] by blast
  define vp3 where "vp3 = vpSetContent L (joinWith newline rs) (viewport m2)"
  have ap: "applySearchHighlights L m2 lines = Inr (m2\<lparr>viewport := vp3\<rparr>)"
    using rs by (simp add: applySearchHighlights_def vp3_def)
  show ?thesis
  proof (cases "searchMatches m2 = []")
    case True
    then have "bindE (applySearchHighlights L m2 lines)
                 (\<lambda>m3. if length (searchMatches m3) > 0 then scrollToMatch L m3 (searchCurrent m3)
                       else Inr m3) = Inr (m2\<lparr>viewport := vp3\<rparr>)"
      by (simp add: ap)
    then show ?thesis by (rule exI)
  next
    case False
    with c have n: "nthE (searchMatches m2) (searchCurrent m2) =
                 Inr (searchMatches m2 ! nat (searchCurrent m2))"
      by (simp add: nthE_def)
    define off where "off = smLine (searchMatches m2 ! nat (searchCurrent m2)) - goQuot (vpHeight vp3) 4"
    have "scrollToMatch L (m2\<lparr>viewport := vp3\<rparr>) (searchCurrent m2) =
          Inr (m2\<lparr>viewport := vpSetYOffset L (if off < 0 then 0 else off) vp3\<rparr>)"
      using False c n by (simp add: scrollToMatch_def Let_def off_def)
    with False have "bindE (applySearchHighlights L m2 lines)
                 (\<lambda>m3. if length (searchMatches m3) > 0 then scrollToMatch L m3 (searchCurrent m3)
                       else Inr m3) = Inr (m2\<lparr>viewport := vpSetYOffset L (if off < 0 then 0 else off) vp3\<rparr>)"
      by (simp add: ap)
    then show ?thesis by (rule exI)
  qed
qed

text \<open>What \<open>rebuildSearch\<close> returns for a query that is not empty.\<close>

lemma rebuildSearch_result:
  assumes q: "searchText m \<noteq> []"
    and len: "length (searchText m) \<le> length (toLower L (searchText m))"
    and cur: "0 \<le> searchCurrent m"
  shows "\<exists>ms vp. scanLines (toLower L) (toLower L (searchText m)) (length (searchText m))
                   (splitOn (CHR 0x0A) (detailContent m)) 0 [] = Inr ms \<and>
           rebuildSearch L m =
             Inr (m\<lparr>searchMatches := ms,
                    searchCurrent := (if searchCurrent m \<ge> int (length ms) then 0 else searchCurrent m),
                    viewport := vp\<rparr>)"
proof -
  define lines where "lines = splitOn (CHR 0x0A) (detailContent m)"
  let ?lq = "toLower L (searchText m)" and ?n = "length (searchText m)"
  from q have n0: "0 < ?n" by simp
  obtain ms where sc: "scanLines (toLower L) ?lq ?n lines 0 [] = Inr ms"
    and all: "list_all (docMatch (toLower L) ?lq ?n 0 lines) ms"
    using scanLines_spec[OF n0 len, of "toLower L" lines 0 "[]"] by auto
  have "\<forall>sm\<in>set ms. validRange (smStart sm, smEnd sm)"
    using all docMatch_validRange by (auto simp: list_all_iff)
  then have inv: "groupInv (groupByLine ms)" by (rule groupByLine_inv)
  define c where "c = (if searchCurrent m \<ge> int (length ms) then 0 else searchCurrent m)"
  define m2 where "m2 = m\<lparr>searchMatches := ms, searchCurrent := c\<rparr>"
  have m2: "(if searchCurrent (m\<lparr>searchMatches := ms\<rparr>) \<ge> int (length (searchMatches (m\<lparr>searchMatches := ms\<rparr>)))
             then m\<lparr>searchMatches := ms\<rparr>\<lparr>searchCurrent := 0\<rparr> else m\<lparr>searchMatches := ms\<rparr>) = m2"
    by (simp add: m2_def c_def)
  have c0: "0 \<le> searchCurrent m2" using cur by (simp add: m2_def c_def)
  have c1: "searchMatches m2 \<noteq> [] \<longrightarrow> searchCurrent m2 < int (length (searchMatches m2))"
    by (simp add: m2_def c_def)
  have inv2: "groupInv (groupByLine (searchMatches m2))" using inv by (simp add: m2_def)
  have "\<exists>vp. bindE (applySearchHighlights L m2 lines)
                 (\<lambda>m3. if length (searchMatches m3) > 0 then scrollToMatch L m3 (searchCurrent m3)
                       else Inr m3) = Inr (m2\<lparr>viewport := vp\<rparr>)"
    using inv2 c0 c1 by (rule highlight_and_scroll)
  then obtain vp where vp: "bindE (applySearchHighlights L m2 lines)
                 (\<lambda>m3. if length (searchMatches m3) > 0 then scrollToMatch L m3 (searchCurrent m3)
                       else Inr m3) = Inr (m2\<lparr>viewport := vp\<rparr>)" ..
  have "rebuildSearch L m = Inr (m2\<lparr>viewport := vp\<rparr>)"
    unfolding rebuildSearch_def Let_def lines_def[symmetric]
    using q sc vp by (simp only: if_False bindE_Inr m2)
  then have "rebuildSearch L m = Inr (m\<lparr>searchMatches := ms, searchCurrent := c, viewport := vp\<rparr>)"
    by (simp add: m2_def)
  with sc show ?thesis
    unfolding c_def lines_def by blast
qed


text \<open>
  Search match production, for a query that is not empty and that \<open>strings.ToLower\<close>
  does not shorten (every ASCII query is one): \<open>rebuildSearch\<close> returns, and its matches
  are these: every match names a line of the content, ends \<open>len(query)\<close> after its
  start, and the lowered query is found at its start in the lowered, escape-stripped text
  of that line; the matches are in document order and two matches of one line do not
  overlap (the next starts at or after the end of the previous); every place of a line
  where the lowered query is found lies inside a match of that line. On a content with
  \<open>Job\<close> twice and \<open>JOB\<close> once the query \<open>job\<close> gives three matches, in document
  order.
\<close>

theorem search_match_production:
  assumes "searchText m \<noteq> []"
    and "length (searchText m) \<le> length (toLower L (searchText m))"
    and "0 \<le> searchCurrent m"
  shows "(\<exists>m'. rebuildSearch L m = Inr m' \<and>
            list_all (docMatch (toLower L) (toLower L (searchText m)) (length (searchText m)) 0
                        (splitOn (CHR 0x0A) (detailContent m)))
              (searchMatches m') \<and>
            sorted_wrt before (searchMatches m') \<and>
            (\<forall>k p. k < length (splitOn (CHR 0x0A) (detailContent m)) \<and>
                   p \<le> length (toLower L (stripANSI (splitOn (CHR 0x0A) (detailContent m) ! k))) \<and>
                   prefix (toLower L (searchText m))
                     (drop p (toLower L (stripANSI (splitOn (CHR 0x0A) (detailContent m) ! k)))) \<longrightarrow>
                   (\<exists>sm\<in>set (searchMatches m').
                      smLine sm = int k \<and> smStart sm \<le> int p \<and> int p < smEnd sm))) \<and>
         map_sum id searchMatches (rebuildSearch exampleLib jobModel) =
           Inr [\<lparr>smLine = 0, smStart = 6, smEnd = 9\<rparr>,
                \<lparr>smLine = 1, smStart = 8, smEnd = 11\<rparr>,
                \<lparr>smLine = 1, smStart = 23, smEnd = 26\<rparr>]"
proof (rule conjI)
  let ?lines = "splitOn (CHR 0x0A) (detailContent m)"
  let ?lq = "toLower L (searchText m)" and ?n = "length (searchText m)"
  from assms(1) have n0: "0 < ?n" by simp
  obtain ms0 vp where sc: "scanLines (toLower L) ?lq ?n ?lines 0 [] = Inr ms0"
    and rb: "rebuildSearch L m =
             Inr (m\<lparr>searchMatches := ms0,
                    searchCurrent := (if searchCurrent m \<ge> int (length ms0) then 0 else searchCurrent m),
                    viewport := vp\<rparr>)"
    using rebuildSearch_result[OF assms] by blast
  obtain ms where sc': "scanLines (toLower L) ?lq ?n ?lines 0 [] = Inr ([] @ ms)"
    and all: "list_all (docMatch (toLower L) ?lq ?n 0 ?lines) ms"
    and srt: "sorted_wrt before ms"
    and cov: "\<forall>k p. k < length ?lines \<and> p \<le> length (toLower L (stripANSI (?lines ! k))) \<and>
               prefix ?lq (drop p (toLower L (stripANSI (?lines ! k)))) \<longrightarrow>
               (\<exists>sm\<in>set ms. smLine sm = int (0 + k) \<and> smStart sm \<le> int p \<and> int p < smEnd sm)"
    using scanLines_spec[OF n0 assms(2), of "toLower L" ?lines 0 "[]"] by blast
  from sc sc' have eq: "ms0 = ms" by simp
  define m' where "m' = m\<lparr>searchMatches := ms0,
                    searchCurrent := (if searchCurrent m \<ge> int (length ms0) then 0 else searchCurrent m),
                    viewport := vp\<rparr>"
  have sm: "searchMatches m' = ms" by (simp add: m'_def eq)
  have "rebuildSearch L m = Inr m'" using rb by (simp add: m'_def)
  moreover have "list_all (docMatch (toLower L) ?lq ?n 0 ?lines) (searchMatches m')"
    using all by (simp only: sm)
  moreover have "sorted_wrt before (searchMatches m')" using srt by (simp only: sm)
  moreover have "\<forall>k p. k < length ?lines \<and> p \<le> length (toLower L (stripANSI (?lines ! k))) \<and>
               prefix ?lq (drop p (toLower L (stripANSI (?lines ! k)))) \<longrightarrow>
               (\<exists>sm\<in>set (searchMatches m'). smLine sm = int k \<and> smStart sm \<le> int p \<and> int p < smEnd sm)"
    using cov by (simp only: sm add_0)
  ultimately show "\<exists>m'. rebuildSearch L m = Inr m' \<and>
            list_all (docMatch (toLower L) ?lq ?n 0 ?lines) (searchMatches m') \<and>
            sorted_wrt before (searchMatches m') \<and>
            (\<forall>k p. k < length ?lines \<and> p \<le> length (toLower L (stripANSI (?lines ! k))) \<and>
                   prefix ?lq (drop p (toLower L (stripANSI (?lines ! k)))) \<longrightarrow>
                   (\<exists>sm\<in>set (searchMatches m').
                      smLine sm = int k \<and> smStart sm \<le> int p \<and> int p < smEnd sm))"
    by blast
next
  show "map_sum id searchMatches (rebuildSearch exampleLib jobModel) =
           Inr [\<lparr>smLine = 0, smStart = 6, smEnd = 9\<rparr>,
                \<lparr>smLine = 1, smStart = 8, smEnd = 11\<rparr>,
                \<lparr>smLine = 1, smStart = 23, smEnd = 26\<rparr>]"
    by code_simp
qed

theorem search_match_production_witness:
  "(\<exists>m'. rebuildSearch exampleLib jobModel = Inr m' \<and>
      list_all (docMatch (toLower exampleLib) (toLower exampleLib (searchText jobModel))
                  (length (searchText jobModel)) 0 (splitOn (CHR 0x0A) (detailContent jobModel)))
        (searchMatches m') \<and>
      sorted_wrt before (searchMatches m')) \<and>
   map_sum id searchMatches (rebuildSearch exampleLib jobModel) =
     Inr [\<lparr>smLine = 0, smStart = 6, smEnd = 9\<rparr>,
          \<lparr>smLine = 1, smStart = 8, smEnd = 11\<rparr>,
          \<lparr>smLine = 1, smStart = 23, smEnd = 26\<rparr>]"
proof -
  have h1: "searchText jobModel \<noteq> []" by (simp add: jobModel_def)
  have h2: "length (searchText jobModel) \<le> length (toLower exampleLib (searchText jobModel))"
    by (simp add: jobModel_def exampleLib_def toLowerASCII_def)
  have h3: "0 \<le> searchCurrent jobModel" by (simp add: jobModel_def New_def)
  from search_match_production[OF h1 h2 h3] show ?thesis by blast
qed


text \<open>
  Claim C3, at a query that \<open>strings.ToLower\<close> shortens. The scan looks for the lowered
  query but resumes \<open>len(m.searchText)\<close> bytes after a match, the length of the query as
  typed. With the YAML view showing the line \<open>kind: ManifestWork\<close> and the search box
  open, typing the Kelvin sign makes the query three bytes long and its lowered form
  \<open>k\<close>; the second match starts at the last byte of the line, the scan resumes two bytes
  past the end of the line, and \<open>lplain[pos:]\<close> panics.
\<close>

theorem search_panics_on_shortened_query:
  "run kelvinLib (New cfg0)
     [WindowSizeMsg 100 41, KeyMsg KeyEnter ''enter'', KeyMsg KeyEnter ''enter'',
      ConnectedMsg (Some (Client 0)) [consumer1], ManifestsLoadedMsg [work1],
      DetailLoadedMsg (ManifestWorkDetails 0) [] ''kind: ManifestWork'' [] [],
      KeyMsg KeyTab ''tab'', KeyMsg KeyRunes ''v'', KeyMsg KeyRunes ''v'',
      KeyMsg KeyRunes ''/'', KeyMsg KeyRunes kelvin] = Inl SliceBounds"
  by code_simp
section \<open>The state machine\<close>


lemma bindE_InrD: "bindE r f = Inr y \<Longrightarrow> \<exists>x. r = Inr x \<and> f x = Inr y"
  by (cases r) simp_all

lemma applySearchHighlights_keeps:
  "applySearchHighlights L m ls = Inr m' \<Longrightarrow> \<exists>vp. m' = m\<lparr>viewport := vp\<rparr>"
  unfolding applySearchHighlights_def by (drule bindE_InrD) auto

lemma scrollToMatch_keeps:
  assumes "scrollToMatch L m idx = Inr m'"
  shows "\<exists>vp. m' = m\<lparr>viewport := vp\<rparr>"
proof (cases "idx \<ge> int (length (searchMatches m))")
  case True
  with assms have "m' = m\<lparr>viewport := viewport m\<rparr>" by (simp add: scrollToMatch_def)
  then show ?thesis by (rule exI)
next
  case False
  with assms show ?thesis
    unfolding scrollToMatch_def by (auto simp: Let_def dest!: bindE_InrD)
qed

lemma rebuildSearch_nonempty:
  "searchText m \<noteq> [] \<Longrightarrow>
   rebuildSearch L m =
     bindE (scanLines (toLower L) (toLower L (searchText m)) (length (searchText m))
              (splitOn (CHR 0x0A) (detailContent m)) 0 [])
       (\<lambda>ms. bindE (applySearchHighlights L
                      (m\<lparr>searchMatches := ms,
                         searchCurrent := (if searchCurrent m \<ge> int (length ms) then 0
                                           else searchCurrent m)\<rparr>)
                      (splitOn (CHR 0x0A) (detailContent m)))
               (\<lambda>m3. if searchMatches m3 \<noteq> [] then scrollToMatch L m3 (searchCurrent m3)
                     else Inr m3))"
  unfolding rebuildSearch_def Let_def
  by (auto intro!: arg_cong2[where f = bindE] ext)

text \<open>\<open>rebuildSearch\<close> writes the match list, the current index and the viewport only.\<close>

lemma rebuildSearch_keeps:
  assumes "rebuildSearch L m = Inr m'"
  shows "\<exists>sM sC vp. m' = m\<lparr>searchMatches := sM, searchCurrent := sC, viewport := vp\<rparr>"
proof (cases "searchText m = []")
  case True
  with assms have "m' = m\<lparr>searchMatches := [], searchCurrent := 0,
               viewport := vpSetContent L (detailContent m) (viewport m)\<rparr>"
    by (simp add: rebuildSearch_def)
  then show ?thesis by blast
next
  case False
  define lines where "lines = splitOn (CHR 0x0A) (detailContent m)"
  from assms[unfolded rebuildSearch_nonempty[OF False]] obtain ms where
    r: "bindE (applySearchHighlights L
                      (m\<lparr>searchMatches := ms,
                         searchCurrent := (if searchCurrent m \<ge> int (length ms) then 0
                                           else searchCurrent m)\<rparr>) lines)
               (\<lambda>m3. if searchMatches m3 \<noteq> [] then scrollToMatch L m3 (searchCurrent m3)
                     else Inr m3) = Inr m'"
    unfolding lines_def by (blast dest: bindE_InrD)
  define c where "c = (if searchCurrent m \<ge> int (length ms) then 0 else searchCurrent m)"
  from r[folded c_def] obtain m3 where
    a: "applySearchHighlights L (m\<lparr>searchMatches := ms, searchCurrent := c\<rparr>) lines = Inr m3"
    and s: "(if searchMatches m3 \<noteq> [] then scrollToMatch L m3 (searchCurrent m3) else Inr m3) = Inr m'"
    by (blast dest: bindE_InrD)
  from applySearchHighlights_keeps[OF a] obtain vp3 where
    m3: "m3 = m\<lparr>searchMatches := ms, searchCurrent := c, viewport := vp3\<rparr>" by auto
  have "\<exists>vp. m' = m3\<lparr>viewport := vp\<rparr>"
  proof (cases "searchMatches m3 \<noteq> []")
    case True
    with s show ?thesis using scrollToMatch_keeps by simp
  next
    case False
    with s have "m' = m3\<lparr>viewport := viewport m3\<rparr>" by simp
    then show ?thesis by (rule exI)
  qed
  then obtain vp where "m' = m3\<lparr>viewport := vp\<rparr>" ..
  with m3 have "m' = m\<lparr>searchMatches := ms, searchCurrent := c, viewport := vp\<rparr>" by simp
  then show ?thesis by blast
qed


lemma rebuildSearch_sameOutsideInputs:
  "rebuildSearch L m = Inr m' \<Longrightarrow> sameOutsideInputs m m'"
  by (drule rebuildSearch_keeps) (auto simp: sameOutsideInputs_def)

lemma forwardToActive_keeps:
  assumes "forwardToActive L m message = Inr (m1, c)"
  shows "sameOutsideInputs m m1 \<and> (\<forall>x\<in>set c. \<exists>n. x = LibCmd n)"
proof (cases "screen m")
  case screenConnect
  with assms show ?thesis
    unfolding forwardToActive_def
    by (auto simp: sameOutsideInputs_def split: if_splits prod.splits dest!: bindE_InrD)
next
  case screenMain
  show ?thesis
  proof (cases "showCreateConsumer m \<or> filtering m \<or> \<not> searching m")
    case True
    with assms screenMain show ?thesis
      unfolding forwardToActive_def
      by (auto simp: sameOutsideInputs_def Let_def split: if_splits prod.splits)
  next
    case False
    obtain updated ns where u: "tiUpdate L message (searchInput m) = (updated, ns)"
      by (cases "tiUpdate L message (searchInput m)")
    define m0 where "m0 = m\<lparr>searchInput := updated, searchText := tiValue updated\<rparr>"
    have s0: "sameOutsideInputs m m0" by (simp add: sameOutsideInputs_def m0_def)
    from assms screenMain False u
    have r: "(if searchText m0 \<noteq> searchText m
              then bindE (rebuildSearch L m0) (\<lambda>m2. Inr (m2, map LibCmd ns))
              else Inr (m0, map LibCmd ns)) = Inr (m1, c)"
      unfolding forwardToActive_def m0_def by (simp add: Let_def)
    show ?thesis
    proof (cases "searchText m0 \<noteq> searchText m")
      case True
      with r obtain m2 where "rebuildSearch L m0 = Inr m2" "m1 = m2" "c = map LibCmd ns"
        by (auto dest!: bindE_InrD)
      with s0 rebuildSearch_sameOutsideInputs[of L m0 m2] show ?thesis
        by (auto simp: sameOutsideInputs_def)
    next
      case False
      with r s0 show ?thesis by auto
    qed
  qed
qed


lemma Update_step:
  assumes "forwardToActive L m message = Inr (m1, c1)" and "\<forall>s. message \<noteq> KeyMsg KeyCtrlC s"
  shows "Update L m message = bindE (handleMsg L m1 message) (\<lambda>(m2, c2). Inr (m2, c1 @ c2))"
  using assms unfolding Update_def by (auto split: msg.splits keyType.splits)


lemma forwardToActive_connect_total:
  assumes "screen m = screenConnect" and "0 \<le> connectFocusIdx m" and "length (connectInputs m) = 2"
  shows "\<exists>m1 c1. forwardToActive L m message = Inr (m1, c1)"
proof (cases "connectFocusIdx m < 2")
  case True
  with assms have "nthE (connectInputs m) (connectFocusIdx m) =
                   Inr (connectInputs m ! nat (connectFocusIdx m))"
    by (simp add: nthE_def)
  with True assms(1) show ?thesis
    unfolding forwardToActive_def by (auto split: prod.splits)
next
  case False
  with assms(1) show ?thesis unfolding forwardToActive_def by simp
qed

lemma handleMsg_connected:
  "\<exists>m'. handleMsg L m1 (ConnectedMsg cl cs) =
          Inr (m', if cs = [] then [] else [LoadManifests cl (ciName (hd cs))]) \<and>
        focused m' = (if length cs = 1 then panelManifests else focused m1) \<and>
        screen m' = screenMain \<and> consumers m' = cs \<and> client m' = cl"
proof (cases cs)
  case Nil
  then show ?thesis by (simp add: handleMsg_def)
next
  case (Cons c cs')
  then show ?thesis by (simp add: handleMsg_def Let_def nthE_def)
qed

text \<open>
  Claim C10. When the connect completion event is applied (step 1 of \<open>Update\<close> having
  returned, as it does on the connect screen), the commands issued are those of the
  sub-component and, if the consumer list is not empty, one work-list load for the first
  consumer of the list, whatever the number of consumers; with an empty list no load is
  issued. The focus becomes the work-list panel when there is exactly one consumer and
  is left as it was otherwise (the consumers panel, on the way from the connect screen).
\<close>

theorem connected_loads_first_consumer:
  "(screen m = screenConnect \<and> 0 \<le> connectFocusIdx m \<and> length (connectInputs m) = 2 \<longrightarrow>
      (\<exists>m1 c1. forwardToActive L m (ConnectedMsg cl cs) = Inr (m1, c1))) \<and>
   (\<forall>m1 c1. forwardToActive L m (ConnectedMsg cl cs) = Inr (m1, c1) \<longrightarrow>
      (\<exists>m'. Update L m (ConnectedMsg cl cs) =
               Inr (m', c1 @ (if cs = [] then [] else [LoadManifests cl (ciName (hd cs))])) \<and>
             focused m' = (if length cs = 1 then panelManifests else focused m) \<and>
             screen m' = screenMain \<and> consumers m' = cs \<and> client m' = cl) \<and>
      (\<forall>x\<in>set c1. \<exists>n. x = LibCmd n))"
proof (intro conjI allI impI)
  assume "screen m = screenConnect \<and> 0 \<le> connectFocusIdx m \<and> length (connectInputs m) = 2"
  then show "\<exists>m1 c1. forwardToActive L m (ConnectedMsg cl cs) = Inr (m1, c1)"
    using forwardToActive_connect_total by blast
next
  fix m1 c1
  assume f: "forwardToActive L m (ConnectedMsg cl cs) = Inr (m1, c1)"
  from forwardToActive_keeps[OF f] have k: "focused m1 = focused m"
    and l: "\<forall>x\<in>set c1. \<exists>n. x = LibCmd n"
    by (simp_all add: sameOutsideInputs_def)
  from l show "\<forall>x\<in>set c1. \<exists>n. x = LibCmd n" .
  obtain m' where h: "handleMsg L m1 (ConnectedMsg cl cs) =
          Inr (m', if cs = [] then [] else [LoadManifests cl (ciName (hd cs))])"
    and p: "focused m' = (if length cs = 1 then panelManifests else focused m1)"
       "screen m' = screenMain" "consumers m' = cs" "client m' = cl"
    using handleMsg_connected by blast
  have "Update L m (ConnectedMsg cl cs) =
               Inr (m', c1 @ (if cs = [] then [] else [LoadManifests cl (ciName (hd cs))]))"
    using Update_step[OF f] h by simp
  with p k show "\<exists>m'. Update L m (ConnectedMsg cl cs) =
               Inr (m', c1 @ (if cs = [] then [] else [LoadManifests cl (ciName (hd cs))])) \<and>
             focused m' = (if length cs = 1 then panelManifests else focused m) \<and>
             screen m' = screenMain \<and> consumers m' = cs \<and> client m' = cl"
    by auto
qed


theorem connected_loads_first_consumer_witness:
  "(\<exists>m'. Update exampleLib (New cfg0) (ConnectedMsg (Some (Client 0)) [consumer1]) =
            Inr (m', [LoadManifests (Some (Client 0)) ''c1'']) \<and> focused m' = panelManifests) \<and>
   (\<exists>m'. Update exampleLib (New cfg0) (ConnectedMsg (Some (Client 0)) [consumer1, consumer2]) =
            Inr (m', [LoadManifests (Some (Client 0)) ''c1'']) \<and> focused m' = panelConsumers) \<and>
   (\<exists>m'. Update exampleLib (New cfg0) (ConnectedMsg (Some (Client 0)) []) = Inr (m', []) \<and>
          focused m' = panelConsumers)"
proof -
  have f: "\<And>cs. forwardToActive exampleLib (New cfg0) (ConnectedMsg (Some (Client 0)) cs) =
                Inr (New cfg0, [])"
    by (simp add: forwardToActive_def New_def exampleLib_def nthE_def)
  note t = connected_loads_first_consumer[of "New cfg0" exampleLib "Some (Client 0)",
              THEN conjunct2, rule_format, OF f, THEN conjunct1]
  have fc: "focused (New cfg0) = panelConsumers" by (simp add: New_def)
  have n1: "ciName consumer1 = ''c1''" by (simp add: consumer1_def)
  have 1: "\<exists>m'. Update exampleLib (New cfg0) (ConnectedMsg (Some (Client 0)) [consumer1]) =
            Inr (m', [LoadManifests (Some (Client 0)) ''c1'']) \<and> focused m' = panelManifests"
    using t[of "[consumer1]"] by (auto simp: n1)
  have 2: "\<exists>m'. Update exampleLib (New cfg0) (ConnectedMsg (Some (Client 0)) [consumer1, consumer2]) =
            Inr (m', [LoadManifests (Some (Client 0)) ''c1'']) \<and> focused m' = panelConsumers"
    using t[of "[consumer1, consumer2]"] by (auto simp: n1 fc)
  have 3: "\<exists>m'. Update exampleLib (New cfg0) (ConnectedMsg (Some (Client 0)) []) = Inr (m', []) \<and>
          focused m' = panelConsumers"
    using t[of "[]"] by (auto simp: fc)
  from 1 2 3 show ?thesis by (intro conjI)
qed

text \<open>
  Claim C7. A left-button press on the main screen with \<open>x\<close> in the left column. In the
  work-list region (\<open>y\<close> at or below the consumers region) the index is
  \<open>y - consumerH - 3 + manifestOffset\<close>; in the header rows or at or past the end of the
  filtered list the click only focuses the panel; inside the list it focuses the panel,
  moves the cursor to the index and issues the detail fetch of that entry. The consumers
  region does the same with 2 header rows, its own offset and a work-list load. (A
  negative index, which needs a negative scroll offset, reads out of range.)
\<close>

theorem panel_hit_test:
  assumes "screen m = screenMain" and "x < scale40 (width m)"
  shows "(y \<ge> scale40 (height m - 1) \<longrightarrow>
           handleMouse L m x y MouseButtonLeft MouseActionPress =
             (let idx = y - scale40 (height m - 1) - 3 + manifestOffset m;
                  visible = filteredManifests L m
              in if y - scale40 (height m - 1) - 3 < 0 \<or> idx \<ge> int (length visible)
                 then Inr (m\<lparr>focused := panelManifests\<rparr>, [])
                 else if idx < 0 then Inl IndexOutOfRange
                 else Inr (m\<lparr>focused := panelManifests, manifestCursor := idx\<rparr>,
                           [LoadDetail (client m) (visible ! nat idx)]))) \<and>
         (y < scale40 (height m - 1) \<longrightarrow>
           handleMouse L m x y MouseButtonLeft MouseActionPress =
             (let idx = y - 2 + consumerOffset m
              in if y - 2 < 0 \<or> idx \<ge> int (length (consumers m))
                 then Inr (m\<lparr>focused := panelConsumers\<rparr>, [])
                 else if idx < 0 then Inl IndexOutOfRange
                 else Inr (m\<lparr>focused := panelConsumers, consumerCursor := idx, loading := True,
                             manifests := [], detailContent := [],
                             viewport := vpSetContent L [] (viewport m)\<rparr>,
                           [SpinnerTick, LoadManifests (client m) (ciName (consumers m ! nat idx))])))"
  using assms
  by (auto simp: handleMouse_def mouseClickManifest_def mouseClickConsumer_def Let_def nthE_def)


theorem panel_hit_test_witness:
  "handleMouse exampleLib hitModel 5 19 MouseButtonLeft MouseActionPress =
     Inr (hitModel\<lparr>focused := panelManifests, manifestCursor := 1\<rparr>, [LoadDetail None work2]) \<and>
   handleMouse exampleLib hitModel 5 18 MouseButtonLeft MouseActionPress =
     Inr (hitModel\<lparr>focused := panelManifests\<rparr>, []) \<and>
   handleMouse exampleLib hitModel 5 20 MouseButtonLeft MouseActionPress =
     Inr (hitModel\<lparr>focused := panelManifests\<rparr>, []) \<and>
   handleMouse exampleLib hitModel 5 3 MouseButtonLeft MouseActionPress =
     Inr (hitModel\<lparr>focused := panelConsumers, consumerCursor := 1, loading := True,
                     manifests := [], detailContent := [],
                     viewport := vpSetContent exampleLib [] (viewport hitModel)\<rparr>,
          [SpinnerTick, LoadManifests None ''c2''])"
proof -
  have s: "screen hitModel = screenMain" by (simp add: hitModel_def)
  have x: "5 < scale40 (width hitModel)" by (simp add: hitModel_def scale40_def goQuot_def)
  have h: "scale40 (height hitModel - 1) = 16" by (simp add: hitModel_def scale40_def goQuot_def)
  have v: "filteredManifests exampleLib hitModel = [work1, work2]"
    by (simp add: filteredManifests_def hitModel_def New_def)
  have o: "manifestOffset hitModel = 1" "consumerOffset hitModel = 0"
    "consumers hitModel = [consumer1, consumer2]" "client hitModel = None"
    by (simp_all add: hitModel_def New_def)
  note t = panel_hit_test[OF s x, of _ exampleLib, unfolded h v o Let_def]
  from t[of 19] t[of 18] t[of 20] t[of 3] show ?thesis
    by (simp add: consumer2_def)
qed

section \<open>Error events, capture modes, watch mode, view modes\<close>






text \<open>
  Claim C5 (at most one of \<open>filtering\<close>, \<open>searching\<close>, \<open>showCreateConsumer\<close>,
  \<open>showConfirm\<close> in every reachable state) against the code: on a terminal of 100
  columns, connect with one consumer (focus lands on the work list), open the filter with
  \<open>/\<close>, click in the detail panel at column 50 (the mouse handler moves the focus
  without looking at the capture mode), press \<open>/\<close> again: the key reaches \<open>handleDetailKey\<close>, which opens the
  search. \<open>filtering\<close> and \<open>searching\<close> are both true.
\<close>

theorem capture_modes_overlap_after_click:
  "captureModes
     (run exampleLib (New cfg0)
        [WindowSizeMsg 100 41, KeyMsg KeyEnter ''enter'', KeyMsg KeyEnter ''enter'',
         ConnectedMsg (Some (Client 0)) [consumer1],
         KeyMsg KeyRunes ''/'', MouseMsg 50 5 MouseButtonLeft MouseActionPress,
         KeyMsg KeyRunes ''/'']) =
   Inr (True, True, False, False)"
  by code_simp


















end
